theory Spec2Isabelle
  imports Main "HOL-Library.AList" "HOL-Library.Sublist" "HOL-Library.Multiset"
begin

section \<open>The SQL dump converter \<open>src/data/parse-sql-data.py\<close>\<close>

text \<open>
  Python strings are modelled as \<^typ>\<open>string\<close>: a character is a code point below 256.
  An exception of the script is a value \<open>Inl e\<close> of a sum type.
\<close>

datatype perror = ValueError | KeyError | TypeError | IndexError | OSError

datatype pyval = PyNone | PyInt int | PyStr string

type_synonym pyrecord = "(string \<times> pyval) list"

subsection \<open>The schema\<close>

definition COLUMNS :: "string list" where
  "COLUMNS = [
    ''cd_sistema'', ''cd_central'', ''cd_cooperativa'', ''ano'', ''mes'',
    ''nota_sobras_ou_perdas_sobre_recursos_totais'', ''nota_inadimplencia'',
    ''nota_liquidez_na_central'', ''nota_adto_depositante'',
    ''nota_custo_fixo_sobre_total_recursos'', ''nota_tarifas_sobre_custo_fixo'',
    ''nota_honorarios_e_cedula_sobre_custo_fixo'', ''nota_folha_encargos_sobre_total_recursos'',
    ''nota_receita_financeira_sobre_total_recursos'', ''nota_retorno_carteira_de_credito'',
    ''nota_despesas_financeiras_sobre_recursos_captados'', ''nota_despesas_captacao_sobre_dep_prazo'',
    ''nota_resultado_PCLD_sobre_despesas_totais_mes'', ''nota_resultado_PCLD_sobre_total_recursos'',
    ''nota_liquidez_geral'', ''nota_participacao_capital_proprio'',
    ''nota_rentabilidade_sobras_sobre_receitas_brutas'', ''nota_rentabilidade_sobre_capital_proprio'',
    ''nota_evolucao_quadro_social'', ''nota_limite_exposicao_por_cliente'',
    ''nota_concentacao_carteira_credito'', ''nota_enquadramento_PRE'',
    ''nota_concentracao_depositos'', ''nota_imobilizacao_capital_proprio'',
    ''nota_evolucao_patrimonial'',
    ''alerta_sobras_ou_perdas_sobre_recursos_totais'', ''alerta_inadimplencia'',
    ''alerta_liquidez_na_central'', ''alerta_adto_depositante'',
    ''alerta_custo_fixo_sobre_total_recursos'', ''alerta_tarifas_sobre_custo_fixo'',
    ''alerta_honorarios_e_cedula_sobre_custo_fixo'', ''alerta_folha_encargos_sobre_total_recursos'',
    ''alerta_receita_financeira_sobre_total_recursos'', ''alerta_retorno_carteira_de_credito'',
    ''alerta_despesas_financeiras_sobre_recursos_captados'', ''alerta_despesas_captacao_sobre_dep_prazo'',
    ''alerta_resultado_PCLD_sobre_despesas_totais_mes'', ''alerta_resultado_PCLD_sobre_total_recursos'',
    ''alerta_liquidez_geral'', ''alerta_participacao_capital_proprio'',
    ''alerta_rentabilidade_sobras_sobre_receitas_brutas'', ''alerta_rentabilidade_sobre_capital_proprio'',
    ''alerta_evolucao_quadro_social'', ''alerta_limite_exposicao_por_cliente'',
    ''alerta_concentacao_carteira_credito'', ''alerta_enquadramento_PRE'',
    ''alerta_concentracao_depositos'', ''alerta_imobilizacao_capital_proprio'',
    ''alerta_evolucao_patrimonial'',
    ''total'', ''nu_justificativa'', ''nu_plano'',
    ''tx_justificativa'', ''tx_plano'', ''st_justificativa'', ''st_plano'']"

subsection \<open>Python's string primitives\<close>

text \<open>
  \<open>str.isspace\<close>, which is also the class \<open>\s\<close> of a \<open>str\<close> pattern and the set that
  \<open>str.strip()\<close> removes: on code points below 256 these are 0x09-0x0D, 0x1C-0x20, 0x85, 0xA0.
\<close>

definition is_space :: "char \<Rightarrow> bool" where
  "is_space c \<longleftrightarrow> c \<in> set [CHR 0x09, CHR 0x0A, CHR 0x0B, CHR 0x0C, CHR 0x0D,
     CHR 0x1C, CHR 0x1D, CHR 0x1E, CHR 0x1F, CHR 0x20, CHR 0x85, CHR 0xA0]"

text \<open>\<open>s.strip(chars)\<close>: the characters of the class are removed at both ends.\<close>

definition strip :: "(char \<Rightarrow> bool) \<Rightarrow> string \<Rightarrow> string" where
  "strip P s = rev (dropWhile P (rev (dropWhile P s)))"

definition py_strip :: "string \<Rightarrow> string" where
  "py_strip s = strip is_space s"

definition startswith :: "string \<Rightarrow> string \<Rightarrow> bool" where
  "startswith s p = prefix p s"

subsection \<open>\<open>int(str)\<close>\<close>

text \<open>
  \<open>int(s)\<close> in base 10, as CPython 3.11 computes it: blanks are skipped at both ends (for
  \<open>int\<close> the separators 0x1C-0x1F are not blanks), one sign is allowed, then decimal digits,
  with single underscores between digits; anything else is a \<open>ValueError\<close>, and so is a
  literal of more than 4300 digits (the default limit of the interpreter).
\<close>

definition int_space :: "char \<Rightarrow> bool" where
  "int_space c \<longleftrightarrow> c \<in> set [CHR 0x09, CHR 0x0A, CHR 0x0B, CHR 0x0C, CHR 0x0D,
     CHR 0x20, CHR 0x85, CHR 0xA0]"

definition is_digit :: "char \<Rightarrow> bool" where
  "is_digit c \<longleftrightarrow> c \<in> set ''0123456789''"

definition digit_val :: "char \<Rightarrow> int" where
  "digit_val c = int (of_char c) - 48"

text \<open>The digits of a literal after its first digit: \<open>(_? digit)*\<close>.\<close>

fun more_digits :: "string \<Rightarrow> bool" where
  "more_digits [] = True"
| "more_digits (c # cs) =
     (if is_digit c then more_digits cs
      else if c = CHR ''_'' then (case cs of [] \<Rightarrow> False | d # ds \<Rightarrow> is_digit d \<and> more_digits ds)
      else False)"

definition digits_ok :: "string \<Rightarrow> bool" where
  "digits_ok s = (case s of [] \<Rightarrow> False | c # cs \<Rightarrow> is_digit c \<and> more_digits cs)"

definition decimal :: "string \<Rightarrow> int" where
  "decimal ds = foldl (\<lambda>n c. 10 * n + digit_val c) 0 ds"

definition max_str_digits :: nat where
  "max_str_digits = 4300"

definition py_int :: "string \<Rightarrow> perror + int" where
  "py_int s =
     (let t = strip int_space s;
          neg = (case t of [] \<Rightarrow> False | c # _ \<Rightarrow> c = CHR ''-'');
          body = (case t of [] \<Rightarrow> [] | c # cs \<Rightarrow> if c = CHR ''-'' \<or> c = CHR ''+'' then cs else t);
          ds = filter is_digit body
      in if \<not> digits_ok body then Inl ValueError
         else if length ds > max_str_digits then Inl ValueError
         else Inr (if neg then - decimal ds else decimal ds))"

subsection \<open>The regular expressions\<close>

text \<open>
  A pattern is matched as \<open>re\<close> does it, by backtracking: each construct takes the
  continuation that matches the rest of the pattern, and tries its alternatives in the
  engine's order until the continuation succeeds.
\<close>

type_synonym 'a cont = "string \<Rightarrow> 'a option"

text \<open>A literal string.\<close>

fun lit :: "string \<Rightarrow> 'a cont \<Rightarrow> 'a cont" where
  "lit [] k s = k s"
| "lit (p # ps) k [] = None"
| "lit (p # ps) k (c # cs) = (if p = c then lit ps k cs else None)"

text \<open>\<open>.*?\<close> under \<open>re.DOTALL\<close>: the shortest skip first.\<close>

fun lazy_any :: "'a cont \<Rightarrow> 'a cont" where
  "lazy_any k [] = k []"
| "lazy_any k (c # cs) = (case k (c # cs) of Some r \<Rightarrow> Some r | None \<Rightarrow> lazy_any k cs)"

text \<open>\<open>X*\<close> for a character class \<open>X\<close>: the longest run first, giving back one character at a time.\<close>

fun greedy_star :: "(char \<Rightarrow> bool) \<Rightarrow> 'a cont \<Rightarrow> 'a cont" where
  "greedy_star P k [] = k []"
| "greedy_star P k (c # cs) =
     (if P c then (case greedy_star P k cs of Some r \<Rightarrow> Some r | None \<Rightarrow> k (c # cs))
      else k (c # cs))"

text \<open>The capturing group \<open>(X+)\<close>; \<open>g\<close> is what the group holds so far.\<close>

fun group_star :: "(char \<Rightarrow> bool) \<Rightarrow> (string \<Rightarrow> 'a cont) \<Rightarrow> string \<Rightarrow> 'a cont" where
  "group_star P k g [] = k g []"
| "group_star P k g (c # cs) =
     (if P c then (case group_star P k (g @ [c]) cs of Some r \<Rightarrow> Some r | None \<Rightarrow> k g (c # cs))
      else k g (c # cs))"

definition group_plus :: "(char \<Rightarrow> bool) \<Rightarrow> (string \<Rightarrow> 'a cont) \<Rightarrow> 'a cont" where
  "group_plus P k s = (case s of [] \<Rightarrow> None | c # cs \<Rightarrow> if P c then group_star P k [c] cs else None)"

text \<open>
  \<open>insert_pattern\<close> matched at the start of the text: the group and the text after the match.
\<close>

definition insert_pattern :: "(string \<times> string) cont" where
  "insert_pattern =
     lit ''INSERT INTO `alerta_cooperativa_sicoob`''
       (lazy_any
         (lit ''VALUES''
           (greedy_star is_space
             (lit ''(''
               (group_plus (\<lambda>c. c \<noteq> CHR '';'')
                 (\<lambda>g. lit '');'' (\<lambda>rest. Some (g, rest))))))))"

text \<open>The separator \<open>\),\s*\(\<close> of \<open>re.split\<close>, matched at the start of the text.\<close>

definition row_separator :: "string cont" where
  "row_separator = lit ''),'' (greedy_star is_space (lit ''('' Some))"

subsection \<open>What a match consumes\<close>

text \<open>
  A successful match splits the text: what each construct consumed, then what its
  continuation saw. This is what makes the scans below terminate.
\<close>

lemma lit_Some: "lit p k s = Some r \<Longrightarrow> \<exists>t. s = p @ t \<and> k t = Some r"
  by (induction p k s rule: lit.induct) (auto split: if_splits)

lemma lazy_any_Some: "lazy_any k s = Some r \<Longrightarrow> \<exists>a t. s = a @ t \<and> k t = Some r"
proof (induction k s rule: lazy_any.induct)
  case (1 k)
  then show ?case by auto
next
  case (2 k c cs)
  show ?case
  proof (cases "k (c # cs)")
    case None
    with 2 obtain a t where "cs = a @ t" "k t = Some r" by auto
    then have "c # cs = (c # a) @ t \<and> k t = Some r" by simp
    then show ?thesis by blast
  next
    case (Some r')
    with 2 have "c # cs = [] @ (c # cs) \<and> k (c # cs) = Some r" by simp
    then show ?thesis by blast
  qed
qed

lemma greedy_star_Some:
  "greedy_star P k s = Some r \<Longrightarrow> \<exists>a t. s = a @ t \<and> k t = Some r"
proof (induction P k s rule: greedy_star.induct)
  case (1 P k)
  then show ?case by auto
next
  case (2 P k c cs)
  show ?case
  proof (cases "P c \<and> greedy_star P k cs \<noteq> None")
    case True
    with 2 obtain a t where "cs = a @ t" "k t = Some r" by auto
    then have "c # cs = (c # a) @ t \<and> k t = Some r" by simp
    then show ?thesis by blast
  next
    case False
    with 2 have "c # cs = [] @ (c # cs) \<and> k (c # cs) = Some r" by (auto split: if_splits)
    then show ?thesis by blast
  qed
qed

lemma group_star_Some:
  "group_star P k g s = Some r \<Longrightarrow> \<exists>a t. s = a @ t \<and> k (g @ a) t = Some r"
proof (induction P k g s rule: group_star.induct)
  case (1 P k g)
  then show ?case by auto
next
  case (2 P k g c cs)
  show ?case
  proof (cases "P c \<and> group_star P k (g @ [c]) cs \<noteq> None")
    case True
    with 2 obtain a t where "cs = a @ t" "k ((g @ [c]) @ a) t = Some r" by auto
    then have "c # cs = (c # a) @ t \<and> k (g @ (c # a)) t = Some r" by simp
    then show ?thesis by blast
  next
    case False
    with 2 have "c # cs = [] @ (c # cs) \<and> k (g @ []) (c # cs) = Some r" by (auto split: if_splits)
    then show ?thesis by blast
  qed
qed

lemma group_plus_Some:
  assumes "group_plus P k s = Some r"
  shows "\<exists>a t. s = a @ t \<and> a \<noteq> [] \<and> k a t = Some r"
proof (cases s)
  case Nil
  with assms show ?thesis by (simp add: group_plus_def)
next
  case (Cons c cs)
  with assms have "group_star P k [c] cs = Some r"
    by (simp add: group_plus_def split: if_splits)
  from group_star_Some [OF this] obtain a t where "cs = a @ t" "k ([c] @ a) t = Some r"
    by (elim exE conjE)
  with Cons have "s = (c # a) @ t \<and> c # a \<noteq> [] \<and> k (c # a) t = Some r" by simp
  then show ?thesis by blast
qed

lemma insert_pattern_Some:
  assumes "insert_pattern s = Some (g, rest)"
  shows "\<exists>a. s = a @ ''('' @ g @ '');'' @ rest \<and> g \<noteq> []"
proof -
  from assms [unfolded insert_pattern_def, THEN lit_Some]
  obtain t0 where s: "s = ''INSERT INTO `alerta_cooperativa_sicoob`'' @ t0"
    and h0: "lazy_any (lit ''VALUES'' (greedy_star is_space (lit ''(''
               (group_plus (\<lambda>c. c \<noteq> CHR '';'')
                 (\<lambda>g. lit '');'' (\<lambda>rest. Some (g, rest))))))) t0 = Some (g, rest)"
    by (elim exE conjE)
  from lazy_any_Some [OF h0] obtain a1 t1 where t0: "t0 = a1 @ t1"
    and h1: "lit ''VALUES'' (greedy_star is_space (lit ''(''
               (group_plus (\<lambda>c. c \<noteq> CHR '';'')
                 (\<lambda>g. lit '');'' (\<lambda>rest. Some (g, rest)))))) t1 = Some (g, rest)"
    by (elim exE conjE)
  from lit_Some [OF h1] obtain t2 where t1: "t1 = ''VALUES'' @ t2"
    and h2: "greedy_star is_space (lit ''(''
               (group_plus (\<lambda>c. c \<noteq> CHR '';'')
                 (\<lambda>g. lit '');'' (\<lambda>rest. Some (g, rest))))) t2 = Some (g, rest)"
    by (elim exE conjE)
  from greedy_star_Some [OF h2] obtain a3 t3 where t2: "t2 = a3 @ t3"
    and h3: "lit ''('' (group_plus (\<lambda>c. c \<noteq> CHR '';'')
                 (\<lambda>g. lit '');'' (\<lambda>rest. Some (g, rest)))) t3 = Some (g, rest)"
    by (elim exE conjE)
  from lit_Some [OF h3] obtain t4 where t3: "t3 = ''('' @ t4"
    and h4: "group_plus (\<lambda>c. c \<noteq> CHR '';'')
                 (\<lambda>g. lit '');'' (\<lambda>rest. Some (g, rest))) t4 = Some (g, rest)"
    by (elim exE conjE)
  from group_plus_Some [OF h4] obtain g' t5 where t4: "t4 = g' @ t5" and g': "g' \<noteq> []"
    and h5: "lit '');'' (\<lambda>rest. Some (g', rest)) t5 = Some (g, rest)"
    by (elim exE conjE)
  from lit_Some [OF h5] obtain t6 where t5: "t5 = '');'' @ t6"
    and h6: "Some (g', t6) = Some (g, rest)"
    by (elim exE conjE)
  from h6 have e: "g' = g" "t6 = rest" by simp_all
  have "s = (''INSERT INTO `alerta_cooperativa_sicoob`'' @ a1 @ ''VALUES'' @ a3) @ ''('' @ g @ '');'' @ rest"
    unfolding s t0 t1 t2 t3 t4 t5 e append_assoc ..
  with g' e show ?thesis by blast
qed

lemma row_separator_Some:
  assumes "row_separator s = Some rest"
  shows "\<exists>a. s = ''),'' @ a @ ''('' @ rest"
proof -
  from assms [unfolded row_separator_def, THEN lit_Some]
  obtain t0 where s: "s = ''),'' @ t0"
    and h0: "greedy_star is_space (lit ''('' Some) t0 = Some rest"
    by (elim exE conjE)
  from greedy_star_Some [OF h0] obtain a t1 where t0: "t0 = a @ t1"
    and h1: "lit ''('' Some t1 = Some rest"
    by (elim exE conjE)
  from lit_Some [OF h1] obtain t2 where t1: "t1 = ''('' @ t2" and h2: "Some t2 = Some rest"
    by (elim exE conjE)
  from h2 have e: "t2 = rest" by simp
  have "s = ''),'' @ a @ ''('' @ rest"
    unfolding s t0 t1 e ..
  then show ?thesis ..
qed

subsection \<open>\<open>re.findall\<close> and \<open>re.split\<close>\<close>

text \<open>
  \<open>re.findall(insert_pattern, sql_content, re.MULTILINE | re.DOTALL)\<close>: the text is scanned
  from the left; where the pattern matches, its group is collected and the scan goes on
  after the match, elsewhere it moves one character on.
\<close>

function findall :: "string \<Rightarrow> string list" where
  "findall s =
     (case insert_pattern s of
        Some (g, rest) \<Rightarrow> g # findall rest
      | None \<Rightarrow> (case s of [] \<Rightarrow> [] | c # cs \<Rightarrow> findall cs))"
  by pat_completeness auto
termination
proof (relation "measure length")
  show "wf (measure length)" by simp
next
  fix s :: string and x g rest
  assume "insert_pattern s = Some x" "(g, rest) = x"
  then have "insert_pattern s = Some (g, rest)" by simp
  from insert_pattern_Some [OF this] obtain a where "s = a @ ''('' @ g @ '');'' @ rest"
    by (elim exE conjE)
  then have "length rest < length s" by simp
  then show "(rest, s) \<in> measure length" by simp
next
  fix s :: string and c cs
  assume "s = c # cs"
  then show "(cs, s) \<in> measure length" by simp
qed

declare findall.simps [simp del]

text \<open>
  \<open>re.split(r'\),\s*\(', match)\<close>: the pieces between the separators; \<open>piece\<close> is the
  piece being read.
\<close>

function split_from :: "string \<Rightarrow> string \<Rightarrow> string list" where
  "split_from piece s =
     (case row_separator s of
        Some rest \<Rightarrow> piece # split_from [] rest
      | None \<Rightarrow> (case s of [] \<Rightarrow> [piece] | c # cs \<Rightarrow> split_from (piece @ [c]) cs))"
  by pat_completeness auto
termination
proof (relation "measure (\<lambda>(piece, s). length s)")
  show "wf (measure (\<lambda>(piece, s). length s))" by simp
next
  fix piece s :: string and rest
  assume "row_separator s = Some rest"
  from row_separator_Some [OF this] obtain a where "s = ''),'' @ a @ ''('' @ rest"
    by (elim exE conjE)
  then have "length rest < length s" by simp
  then show "(([], rest), (piece, s)) \<in> measure (\<lambda>(piece, s). length s)" by simp
next
  fix piece s :: string and c cs
  assume "s = c # cs"
  then show "((piece @ [c], cs), (piece, s)) \<in> measure (\<lambda>(piece, s). length s)" by simp
qed

declare split_from.simps [simp del]

definition re_split :: "string \<Rightarrow> string list" where
  "re_split s = split_from [] s"

subsection \<open>The tokenizer\<close>

text \<open>
  The state of the character loop of \<open>parse_sql_insert_values\<close>: the tokens collected so
  far (\<open>values\<close> in the source), the token being read and whether a quote is open.
\<close>

record tok_state =
  vals :: "string list"
  current_value :: string
  in_quotes :: bool

definition quote :: char where
  "quote = CHR 0x27"

definition tok_step :: "tok_state \<Rightarrow> char \<Rightarrow> tok_state" where
  "tok_step st c =
     (if c = quote \<and> \<not> in_quotes st then
        st\<lparr>in_quotes := True, current_value := []\<rparr>
      else if c = quote \<and> in_quotes st then
        st\<lparr>in_quotes := False, vals := vals st @ [current_value st], current_value := []\<rparr>
      else if c = CHR '','' \<and> \<not> in_quotes st then
        (if py_strip (current_value st) \<noteq> []
         then st\<lparr>vals := vals st @ [py_strip (current_value st)], current_value := []\<rparr>
         else st\<lparr>current_value := []\<rparr>)
      else st\<lparr>current_value := current_value st @ [c]\<rparr>)"

definition tok_init :: tok_state where
  "tok_init = \<lparr>vals = [], current_value = [], in_quotes = False\<rparr>"

text \<open>After the loop the last token is added, unless it is blank.\<close>

definition tok_finish :: "tok_state \<Rightarrow> string list" where
  "tok_finish st =
     (if py_strip (current_value st) \<noteq> [] then vals st @ [py_strip (current_value st)]
      else vals st)"

definition tokenize :: "string \<Rightarrow> string list" where
  "tokenize row = tok_finish (foldl tok_step tok_init row)"

text \<open>\<open>row.strip().strip('()')\<close>\<close>

definition clean_row :: "string \<Rightarrow> string" where
  "clean_row row = strip (\<lambda>c. c = CHR ''('' \<or> c = CHR '')'') (py_strip row)"

subsection \<open>Typing a token\<close>

definition to_int :: "string \<Rightarrow> perror + pyval" where
  "to_int val = (case py_int val of Inl e \<Rightarrow> Inl e | Inr n \<Rightarrow> Inr (PyInt n))"

text \<open>The \<open>if\<close>/\<open>elif\<close> chain of the source, in its order.\<close>

definition convert :: "string \<Rightarrow> string \<Rightarrow> perror + pyval" where
  "convert col val =
     (if val = [] \<or> val = [quote, quote] then Inr PyNone
      else if col \<in> set [''ano'', ''mes''] then to_int val
      else if startswith col ''nota_'' \<or> startswith col ''alerta_''
           \<or> col \<in> set [''total'', ''nu_justificativa'', ''nu_plano'',
                         ''st_justificativa'', ''st_plano'']
        then to_int val
      else if col \<in> set [''cd_sistema'', ''cd_central'', ''cd_cooperativa''] then to_int val
      else Inr (PyStr val))"

text \<open>
  \<open>record[col] = v\<close> on a dictionary that keeps insertion order is \<^const>\<open>AList.update\<close>;
  the loop over \<open>zip(COLUMNS, values)\<close> stops at the first conversion that raises.
\<close>

fun fill_record :: "(string \<times> string) list \<Rightarrow> pyrecord \<Rightarrow> perror + pyrecord" where
  "fill_record [] record = Inr record"
| "fill_record ((col, val) # rest) record =
     (case convert col val of
        Inl e \<Rightarrow> Inl e
      | Inr v \<Rightarrow> fill_record rest (AList.update col v record))"

text \<open>The body of the loop over the rows: the record of a row, if it has one.\<close>

definition parse_row :: "string \<Rightarrow> perror + pyrecord option" where
  "parse_row row =
     (let values = tokenize (clean_row row) in
      if length values = length COLUMNS then
        (case fill_record (zip COLUMNS values) [] of
           Inl e \<Rightarrow> Inl e
         | Inr record \<Rightarrow> Inr (Some record))
      else Inr None)"

fun rows_loop :: "string list \<Rightarrow> pyrecord list \<Rightarrow> perror + pyrecord list" where
  "rows_loop [] records = Inr records"
| "rows_loop (row # rows) records =
     (case parse_row row of
        Inl e \<Rightarrow> Inl e
      | Inr None \<Rightarrow> rows_loop rows records
      | Inr (Some record) \<Rightarrow> rows_loop rows (records @ [record]))"

fun matches_loop :: "string list \<Rightarrow> pyrecord list \<Rightarrow> perror + pyrecord list" where
  "matches_loop [] records = Inr records"
| "matches_loop (m # ms) records =
     (case rows_loop (re_split m) records of
        Inl e \<Rightarrow> Inl e
      | Inr records' \<Rightarrow> matches_loop ms records')"

definition parse_sql_insert_values :: "string \<Rightarrow> perror + pyrecord list" where
  "parse_sql_insert_values sql_content = matches_loop (findall sql_content) []"

subsection \<open>Values as text\<close>

function str_nat :: "nat \<Rightarrow> string" where
  "str_nat n = (if n < 10 then [char_of (48 + n)] else str_nat (n div 10) @ [char_of (48 + n mod 10)])"
  by pat_completeness auto
termination
  by (relation "measure id") auto

declare str_nat.simps [simp del]

definition str_int :: "int \<Rightarrow> string" where
  "str_int i = (if i < 0 then CHR ''-'' # str_nat (nat (- i)) else str_nat (nat i))"

text \<open>\<open>str(v)\<close>, as an f-string formats a value.\<close>

definition py_str :: "pyval \<Rightarrow> string" where
  "py_str v = (case v of PyNone \<Rightarrow> ''None'' | PyInt i \<Rightarrow> str_int i | PyStr s \<Rightarrow> s)"

text \<open>\<open>d[k]\<close> raises \<open>KeyError\<close> on a missing key.\<close>

definition dict_get :: "('k \<times> 'v) list \<Rightarrow> 'k \<Rightarrow> perror + 'v" where
  "dict_get d k = (case map_of d k of None \<Rightarrow> Inl KeyError | Some v \<Rightarrow> Inr v)"

subsection \<open>Files and output\<close>

text \<open>
  A path is the list of its components. What the script prints, reads and writes is
  recorded as a trace of events; a written file holds the data handed to \<open>json.dump\<close> or
  to the \<open>csv\<close> writer, not its serialisation.
\<close>

type_synonym path = "string list"

datatype content =
  is_Consolidated: Consolidated (total_records: nat) (total_cooperativas: nat) (fonte: string)
    (data_extracao: string) (data: "pyrecord list")
| is_PerCooperativa: PerCooperativa (cooperativa: pyval) (total_registros: nat)
    (periodos: "pyrecord list")
| is_Csv: Csv (header: "string list") (csv_rows: "string list list")
| Truncated

datatype message =
  Banner | Title | FileNotFound path | Reading | FileRead nat | Extracting | Extracted nat
| StatsTitle | StatsCooperativas nat pyval pyval | StatsPeriodo pyval pyval | StatsTotal nat
| Saving | JsonSaved path | CooperativaSaved path | CsvSaved path | NothingToSave
| Finished | NoRecordsFound

datatype event = Print message | ReadFile path | WriteFile path content

text \<open>The exception that ended a call, if any, and the trace after it.\<close>

type_synonym outcome = "perror option \<times> event list"

text \<open>
  The script creates no directory and checks none: \<open>open(p, 'w')\<close> raises an \<open>OSError\<close>
  (\<open>FileNotFoundError\<close> when the directory of \<open>p\<close> does not exist) and writes nothing, or
  succeeds. Which paths can be opened is given by the environment, as a predicate
  \<open>can_open\<close> that the writing functions take.
\<close>

type_synonym opens = "path \<Rightarrow> bool"

subsection \<open>\<open>save_to_json\<close>\<close>

text \<open>
  The first loop of \<open>save_to_json\<close>: \<open>by_cooperativa\<close> is a dictionary in insertion order,
  from the group's key (\<open>coop_key\<close>, an f-string over the field \<open>cd_cooperativa\<close>) to its
  records.
\<close>

definition coop_key_of :: "pyrecord \<Rightarrow> perror + string" where
  "coop_key_of record =
     (case dict_get record ''cd_cooperativa'' of
        Inl e \<Rightarrow> Inl e
      | Inr v \<Rightarrow> Inr (''cooperativa_'' @ py_str v))"

definition group_step ::
  "(string \<times> pyrecord list) list \<Rightarrow> pyrecord \<Rightarrow> perror + (string \<times> pyrecord list) list" where
  "group_step by_cooperativa record =
     (case coop_key_of record of
        Inl e \<Rightarrow> Inl e
      | Inr coop_key \<Rightarrow>
          (let d = (if map_of by_cooperativa coop_key = None
                    then AList.update coop_key [] by_cooperativa else by_cooperativa)
           in Inr (AList.map_entry coop_key (\<lambda>rs. rs @ [record]) d)))"

fun group_loop ::
  "pyrecord list \<Rightarrow> (string \<times> pyrecord list) list \<Rightarrow> perror + (string \<times> pyrecord list) list" where
  "group_loop [] by_cooperativa = Inr by_cooperativa"
| "group_loop (record # records) by_cooperativa =
     (case group_step by_cooperativa record of
        Inl e \<Rightarrow> Inl e
      | Inr d \<Rightarrow> group_loop records d)"

text \<open>
  The second loop: one file per group. The file is opened first (the loop ends there when
  it cannot be), and before its content is computed, so a failing lookup leaves it
  truncated.
\<close>

definition coop_file :: "path \<Rightarrow> string \<Rightarrow> path" where
  "coop_file output_path coop_key = butlast output_path @ [''balances'', coop_key @ ''.json'']"

fun cooperativa_loop ::
  "opens \<Rightarrow> (string \<times> pyrecord list) list \<Rightarrow> path \<Rightarrow> event list \<Rightarrow> outcome" where
  "cooperativa_loop can_open [] output_path tr = (None, tr)"
| "cooperativa_loop can_open ((coop_key, coop_records) # rest) output_path tr =
     (if \<not> can_open (coop_file output_path coop_key) then (Some OSError, tr)
      else
        (case coop_records of
           [] \<Rightarrow> (Some IndexError, tr @ [WriteFile (coop_file output_path coop_key) Truncated])
         | r # _ \<Rightarrow>
             (case dict_get r ''cd_cooperativa'' of
                Inl e \<Rightarrow> (Some e, tr @ [WriteFile (coop_file output_path coop_key) Truncated])
              | Inr v \<Rightarrow>
                  cooperativa_loop can_open rest output_path
                    (tr @ [WriteFile (coop_file output_path coop_key)
                             (PerCooperativa v (length coop_records) coop_records),
                           Print (CooperativaSaved (coop_file output_path coop_key))]))))"

definition save_to_json :: "opens \<Rightarrow> pyrecord list \<Rightarrow> path \<Rightarrow> event list \<Rightarrow> outcome" where
  "save_to_json can_open records output_path tr =
     (case group_loop records [] of
        Inl e \<Rightarrow> (Some e, tr)
      | Inr by_cooperativa \<Rightarrow>
          (let output_data = Consolidated (length records) (length by_cooperativa)
                 ''grc-web.sql'' ''2025-10-23'' records
           in if \<not> can_open output_path then (Some OSError, tr)
              else cooperativa_loop can_open by_cooperativa output_path
                     (tr @ [WriteFile output_path output_data, Print (JsonSaved output_path)])))"

subsection \<open>\<open>save_to_csv\<close>\<close>

text \<open>
  \<open>csv.DictWriter(f, fieldnames=COLUMNS)\<close>: a row with a key outside the field names
  raises \<open>ValueError\<close>, a missing key is written as the empty string; \<open>None\<close> is written
  as the empty string and any other value as \<open>str\<close> gives it.
\<close>

definition csv_cell :: "pyval \<Rightarrow> string" where
  "csv_cell v = (case v of PyNone \<Rightarrow> [] | PyInt i \<Rightarrow> str_int i | PyStr s \<Rightarrow> s)"

definition dict_to_list :: "string list \<Rightarrow> pyrecord \<Rightarrow> perror + string list" where
  "dict_to_list fieldnames rowdict =
     (if \<exists>k \<in> set (map fst rowdict). k \<notin> set fieldnames then Inl ValueError
      else Inr (map (\<lambda>key. case map_of rowdict key of None \<Rightarrow> [] | Some v \<Rightarrow> csv_cell v)
                  fieldnames))"

text \<open>\<open>writerows\<close>: the rows written, and the exception that stopped it, if any.\<close>

fun writerows :: "string list \<Rightarrow> pyrecord list \<Rightarrow> string list list \<Rightarrow> perror option \<times> string list list" where
  "writerows fieldnames [] written = (None, written)"
| "writerows fieldnames (r # rs) written =
     (case dict_to_list fieldnames r of
        Inl e \<Rightarrow> (Some e, written)
      | Inr row \<Rightarrow> writerows fieldnames rs (written @ [row]))"

definition save_to_csv :: "opens \<Rightarrow> pyrecord list \<Rightarrow> path \<Rightarrow> event list \<Rightarrow> outcome" where
  "save_to_csv can_open records output_path tr =
     (if records = [] then (None, tr @ [Print NothingToSave])
      else if \<not> can_open output_path then (Some OSError, tr)
      else
        (case writerows COLUMNS records [] of
           (Some e, rows) \<Rightarrow> (Some e, tr @ [WriteFile output_path (Csv COLUMNS rows)])
         | (None, rows) \<Rightarrow>
             (None, tr @ [WriteFile output_path (Csv COLUMNS rows), Print (CsvSaved output_path)])))"

subsection \<open>\<open>main\<close>\<close>

text \<open>
  \<open>a < b\<close> on values: integers and strings compare among themselves (strings by code
  points), anything else is a \<open>TypeError\<close>.
\<close>

definition py_less :: "pyval \<Rightarrow> pyval \<Rightarrow> perror + bool" where
  "py_less a b =
     (case (a, b) of
        (PyInt i, PyInt j) \<Rightarrow> Inr (i < j)
      | (PyStr x, PyStr y) \<Rightarrow> Inr (lexordp (\<lambda>c d. (of_char c :: nat) < of_char d) x y)
      | _ \<Rightarrow> Inl TypeError)"

text \<open>
  \<open>min\<close> and \<open>max\<close> over the elements of a set: the first element, then each other one
  compared with the best so far. The order in which a set yields its elements is not
  fixed; here it is the order of the list.
\<close>

fun min_loop :: "pyval \<Rightarrow> pyval list \<Rightarrow> perror + pyval" where
  "min_loop best [] = Inr best"
| "min_loop best (x # xs) =
     (case py_less x best of
        Inl e \<Rightarrow> Inl e
      | Inr b \<Rightarrow> min_loop (if b then x else best) xs)"

fun max_loop :: "pyval \<Rightarrow> pyval list \<Rightarrow> perror + pyval" where
  "max_loop best [] = Inr best"
| "max_loop best (x # xs) =
     (case py_less best x of
        Inl e \<Rightarrow> Inl e
      | Inr b \<Rightarrow> max_loop (if b then x else best) xs)"

definition py_min :: "pyval list \<Rightarrow> perror + pyval" where
  "py_min xs = (case remdups xs of [] \<Rightarrow> Inl ValueError | x # rest \<Rightarrow> min_loop x rest)"

definition py_max :: "pyval list \<Rightarrow> perror + pyval" where
  "py_max xs = (case remdups xs of [] \<Rightarrow> Inl ValueError | x # rest \<Rightarrow> max_loop x rest)"

text \<open>\<open>[r[key] for r in records]\<close>\<close>

fun column :: "string \<Rightarrow> pyrecord list \<Rightarrow> perror + pyval list" where
  "column key [] = Inr []"
| "column key (r # rs) =
     (case dict_get r key of
        Inl e \<Rightarrow> Inl e
      | Inr v \<Rightarrow> (case column key rs of Inl e \<Rightarrow> Inl e | Inr vs \<Rightarrow> Inr (v # vs)))"

definition sql_file :: path where
  "sql_file = [''/'', ''Users'', ''ceciliodaher'', ''Library'', ''CloudStorage'',
     ''OneDrive-Personal'', ''Downloads'', ''Mac-Downloads'', ''grc-web.sql'']"

definition output_dir :: path where
  "output_dir = [''/'', ''Users'', ''ceciliodaher'', ''Documents'', ''git'',
     ''creditscore-pro'', ''data'']"

text \<open>The branch of \<open>main\<close> for a non-empty list of records.\<close>

definition export :: "opens \<Rightarrow> pyrecord list \<Rightarrow> event list \<Rightarrow> outcome" where
  "export can_open records tr =
     (case column ''cd_cooperativa'' records of
        Inl e \<Rightarrow> (Some e, tr)
      | Inr cooperativas \<Rightarrow>
     (case column ''ano'' records of
        Inl e \<Rightarrow> (Some e, tr)
      | Inr anos \<Rightarrow>
     (let tr1 = tr @ [Print StatsTitle] in
      case py_min cooperativas of
        Inl e \<Rightarrow> (Some e, tr1)
      | Inr c_min \<Rightarrow>
     (case py_max cooperativas of
        Inl e \<Rightarrow> (Some e, tr1)
      | Inr c_max \<Rightarrow>
     (let tr2 = tr1 @ [Print (StatsCooperativas (length (remdups cooperativas)) c_min c_max)] in
      case py_min anos of
        Inl e \<Rightarrow> (Some e, tr2)
      | Inr a_min \<Rightarrow>
     (case py_max anos of
        Inl e \<Rightarrow> (Some e, tr2)
      | Inr a_max \<Rightarrow>
     (let tr3 = tr2 @ [Print (StatsPeriodo a_min a_max), Print (StatsTotal (length records)),
                       Print Saving] in
      case save_to_json can_open records (output_dir @ [''alerta_cooperativa_sicoob.json'']) tr3 of
        (Some e, tr4) \<Rightarrow> (Some e, tr4)
      | (None, tr4) \<Rightarrow>
     (case save_to_csv can_open records (output_dir @ [''alerta_cooperativa_sicoob.csv'']) tr4 of
        (Some e, tr5) \<Rightarrow> (Some e, tr5)
      | (None, tr5) \<Rightarrow> (None, tr5 @ [Print Finished])))))))))"

text \<open>
  \<open>main\<close>, given the paths that can be opened for writing and the text of the SQL file
  (\<open>None\<close> when the file does not exist).
\<close>

definition main :: "opens \<Rightarrow> string option \<Rightarrow> outcome" where
  "main can_open sql =
     (let tr0 = [Print Banner, Print Title, Print Banner] in
      case sql of
        None \<Rightarrow> (None, tr0 @ [Print (FileNotFound sql_file)])
      | Some sql_content \<Rightarrow>
          (let tr1 = tr0 @ [Print Reading, ReadFile sql_file,
                            Print (FileRead (length sql_content)), Print Extracting] in
           case parse_sql_insert_values sql_content of
             Inl e \<Rightarrow> (Some e, tr1)
           | Inr records \<Rightarrow>
               (let tr2 = tr1 @ [Print (Extracted (length records))] in
                if records \<noteq> [] then
                  (case export can_open records tr2 of
                     (Some e, tr3) \<Rightarrow> (Some e, tr3)
                   | (None, tr3) \<Rightarrow> (None, tr3 @ [Print Banner]))
                else (None, tr2 @ [Print NoRecordsFound, Print Banner]))))"

section \<open>Notions used in the properties\<close>

subsection \<open>Tuples, typed values and records\<close>

text \<open>The tuples of a text, in the order in which the two loops visit them.\<close>

definition all_rows :: "string \<Rightarrow> string list" where
  "all_rows sql_content = concat (map re_split (findall sql_content))"

text \<open>
  The values of the fields of a tuple, typed in the order of the schema, up to the first
  conversion that raises.
\<close>

fun convert_all :: "(string \<times> string) list \<Rightarrow> perror + pyval list" where
  "convert_all [] = Inr []"
| "convert_all ((col, val) # rest) =
     (case convert col val of
        Inl e \<Rightarrow> Inl e
      | Inr v \<Rightarrow> (case convert_all rest of Inl e \<Rightarrow> Inl e | Inr vs \<Rightarrow> Inr (v # vs)))"

text \<open>
  The columns that the specification designates as integers: \<open>cd_sistema\<close>, \<open>cd_central\<close>,
  \<open>cd_cooperativa\<close>, \<open>ano\<close>, \<open>mes\<close>, every \<open>nota_*\<close> and \<open>alerta_*\<close> column, \<open>total\<close>,
  \<open>nu_justificativa\<close>, \<open>nu_plano\<close>, \<open>st_justificativa\<close>, \<open>st_plano\<close>.
\<close>

definition int_designated :: "string \<Rightarrow> bool" where
  "int_designated col \<longleftrightarrow>
     col \<in> set [''cd_sistema'', ''cd_central'', ''cd_cooperativa'', ''ano'', ''mes'', ''total'',
                ''nu_justificativa'', ''nu_plano'', ''st_justificativa'', ''st_plano'']
     \<or> startswith col ''nota_'' \<or> startswith col ''alerta_''"

text \<open>The record of a tuple, when it has one.\<close>

definition row_record :: "string \<Rightarrow> pyrecord option" where
  "row_record row = (case parse_row row of Inr (Some record) \<Rightarrow> Some record | _ \<Rightarrow> None)"

text \<open>
  A tuple that cannot be typed: it has the 62 tokens of the schema, and in an
  integer-designated column a token that is not empty and that \<open>int\<close> rejects.
\<close>

definition untypable :: "string \<Rightarrow> bool" where
  "untypable row \<longleftrightarrow>
     length (tokenize (clean_row row)) = 62 \<and>
     list_ex (\<lambda>(col, tok). int_designated col \<and> tok \<noteq> [] \<and> py_int tok = Inl ValueError)
       (zip COLUMNS (tokenize (clean_row row)))"

subsection \<open>What a trace wrote\<close>

text \<open>The files written by a trace, in order, and what they hold.\<close>

fun written :: "event list \<Rightarrow> (path \<times> content) list" where
  "written [] = []"
| "written (WriteFile p c # es) = (p, c) # written es"
| "written (Print m # es) = written es"
| "written (ReadFile p # es) = written es"

text \<open>The consolidated JSON documents of a trace.\<close>

definition consolidated_files :: "event list \<Rightarrow> content list" where
  "consolidated_files tr = filter is_Consolidated (map snd (written tr))"

text \<open>The per-entity JSON documents of a trace, each with its path.\<close>

definition group_files :: "event list \<Rightarrow> (path \<times> content) list" where
  "group_files tr = filter (\<lambda>(p, c). is_PerCooperativa c) (written tr)"

text \<open>The CSV files of a trace.\<close>

definition csv_files :: "event list \<Rightarrow> content list" where
  "csv_files tr = filter is_Csv (map snd (written tr))"

subsection \<open>Groups, rows and the place of the tuples in the text\<close>

text \<open>The state of the grouping loop after the records \<open>prev\<close>.\<close>

definition grouped :: "(string \<times> pyrecord list) list \<Rightarrow> pyrecord list \<Rightarrow> bool" where
  "grouped d prev \<longleftrightarrow>
     distinct (map fst d) \<and>
     (\<forall>k. map_of d k =
        (if \<exists>r\<in>set prev. coop_key_of r = Inr k then Some (filter (\<lambda>r. coop_key_of r = Inr k) prev)
         else None))"

text \<open>The document written for a group, when the first record of the group has the field.\<close>

definition group_document :: "path \<Rightarrow> string \<times> pyrecord list \<Rightarrow> path \<times> content" where
  "group_document output_path g =
     (coop_file output_path (fst g),
      PerCooperativa
        (case snd g of [] \<Rightarrow> PyNone
         | r # _ \<Rightarrow> (case map_of r ''cd_cooperativa'' of None \<Rightarrow> PyNone | Some v \<Rightarrow> v))
        (length (snd g)) (snd g))"

text \<open>The row that the CSV writer makes of a record.\<close>

definition csv_row :: "pyrecord \<Rightarrow> string list" where
  "csv_row r = map (\<lambda>key. case map_of r key of None \<Rightarrow> [] | Some v \<Rightarrow> csv_cell v) COLUMNS"

text \<open>
  A text made of the pieces \<open>rows\<close>, in their order, with the texts \<open>gaps\<close> before, between
  and after them.
\<close>

fun interleave :: "string list \<Rightarrow> string list \<Rightarrow> string" where
  "interleave [] rows = concat rows"
| "interleave (g # gaps) [] = g @ concat gaps"
| "interleave (g # gaps) (row # rows) = g @ row @ interleave gaps rows"

subsection \<open>Sample inputs\<close>

text \<open>
  Tuples of 62 fields: \<open>row_a\<close> and \<open>row_b\<close> are well formed (\<open>row_a\<close> has a comma inside a
  literal and an empty literal), \<open>row_null\<close> has the keyword \<open>NULL\<close> in an integer column,
  \<open>row_gap\<close> has nothing between two commas. \<open>sample_sql\<close> is a statement of four tuples,
  one of them with two fields only; \<open>short_sql\<close> is a statement of that tuple alone.
\<close>

definition row_a :: string where
  "row_a = ''7,1,3,2020,5,'' @ concat (replicate 50 ''1,'') @ ''9,0,0,'' @
     [quote] @ ''a,b'' @ [quote] @ '','' @ [quote, quote] @ '',0,1''"

definition row_b :: string where
  "row_b = ''7,1,4,2021,12,'' @ concat (replicate 50 ''2,'') @ ''9,0,0,'' @
     [quote] @ ''c'' @ [quote] @ '','' @ [quote] @ ''d'' @ [quote] @ '',0,1''"

definition row_null :: string where
  "row_null = ''NULL,1,3,2020,5,'' @ concat (replicate 50 ''1,'') @ ''9,0,0,'' @
     [quote] @ ''a'' @ [quote] @ '','' @ [quote] @ ''b'' @ [quote] @ '',0,1''"

definition row_gap :: string where
  "row_gap = ''7,1,3,2020,5,'' @ concat (replicate 50 ''1,'') @ ''9,0,0,'' @
     [quote] @ ''a'' @ [quote] @ '',,0,1''"

definition sample_sql :: string where
  "sample_sql = ''INSERT INTO `alerta_cooperativa_sicoob` VALUES ('' @ row_a @ ''),(1,2),''
     @ [CHR 0x0A] @ ''('' @ row_b @ ''),('' @ row_a @ '');''"

definition short_sql :: string where
  "short_sql = ''INSERT INTO `alerta_cooperativa_sicoob` VALUES (1,2);''"

definition values_a :: "pyval list" where
  "values_a = [PyInt 7, PyInt 1, PyInt 3, PyInt 2020, PyInt 5] @ replicate 50 (PyInt 1) @
     [PyInt 9, PyInt 0, PyInt 0, PyStr ''a,b'', PyNone, PyInt 0, PyInt 1]"

definition values_b :: "pyval list" where
  "values_b = [PyInt 7, PyInt 1, PyInt 4, PyInt 2021, PyInt 12] @ replicate 50 (PyInt 2) @
     [PyInt 9, PyInt 0, PyInt 0, PyStr ''c'', PyStr ''d'', PyInt 0, PyInt 1]"

definition null_sql :: string where
  "null_sql = ''INSERT INTO `alerta_cooperativa_sicoob` VALUES ('' @ row_null @ '');''"

definition record_a :: pyrecord where
  "record_a = zip COLUMNS values_a"

definition record_b :: pyrecord where
  "record_b = zip COLUMNS values_b"

text \<open>
  Two environments: in \<open>all_paths\<close> every file can be opened; in \<open>no_balances\<close> only the
  files of the output directory can be, as when its subdirectory \<open>balances\<close> does not
  exist.
\<close>

definition all_paths :: opens where
  "all_paths p = True"

definition no_balances :: opens where
  "no_balances p \<longleftrightarrow> butlast p = output_dir"

definition json_path :: path where
  "json_path = output_dir @ [''alerta_cooperativa_sicoob.json'']"

definition csv_path :: path where
  "csv_path = output_dir @ [''alerta_cooperativa_sicoob.csv'']"

section \<open>Properties of the parser\<close>

subsection \<open>The loops over statements and tuples\<close>

lemma length_COLUMNS: "length COLUMNS = 62"
  by (simp add: COLUMNS_def)

lemma rows_loop_append:
  "rows_loop (xs @ ys) acc =
     (case rows_loop xs acc of Inl e \<Rightarrow> Inl e | Inr acc' \<Rightarrow> rows_loop ys acc')"
  by (induction xs arbitrary: acc) (auto split: sum.splits option.splits)

lemma matches_loop_rows: "matches_loop ms acc = rows_loop (concat (map re_split ms)) acc"
  by (induction ms arbitrary: acc) (auto simp: rows_loop_append split: sum.splits)

lemma parse_rows_loop: "parse_sql_insert_values s = rows_loop (all_rows s) []"
  by (simp add: parse_sql_insert_values_def all_rows_def matches_loop_rows)

subsection \<open>Typing the fields of a tuple\<close>

lemma distinct_COLUMNS: "distinct COLUMNS"
  by code_simp

lemma update_fresh: "k \<notin> fst ` set al \<Longrightarrow> AList.update k v al = al @ [(k, v)]"
  by (induction al) auto

lemma fill_record_convert_all:
  "distinct (map fst cvs) \<Longrightarrow> fst ` set acc \<inter> fst ` set cvs = {} \<Longrightarrow>
   fill_record cvs acc =
     (case convert_all cvs of Inl e \<Rightarrow> Inl e | Inr vs \<Rightarrow> Inr (acc @ zip (map fst cvs) vs))"
proof (induction cvs arbitrary: acc)
  case Nil
  then show ?case by simp
next
  case (Cons cv cvs)
  obtain col val where cv: "cv = (col, val)" by (cases cv)
  show ?case
  proof (cases "convert col val")
    case (Inl e)
    then show ?thesis by (simp add: cv)
  next
    case (Inr v)
    from Cons.prems have fresh: "col \<notin> fst ` set acc" by (auto simp: cv)
    have d: "distinct (map fst cvs)" using Cons.prems by simp
    have "fst ` set (acc @ [(col, v)]) \<inter> fst ` set cvs = {}"
      using Cons.prems by (auto simp: cv)
    from Cons.IH [OF d this] show ?thesis
      by (simp add: cv Inr update_fresh [OF fresh] split: sum.splits)
  qed
qed

lemma convert_all_Inr:
  "convert_all cvs = Inr vs \<Longrightarrow>
   length vs = length cvs \<and> (\<forall>i<length cvs. convert (fst (cvs ! i)) (snd (cvs ! i)) = Inr (vs ! i))"
proof (induction cvs arbitrary: vs)
  case Nil
  then show ?case by simp
next
  case (Cons cv cvs)
  obtain col val where cv: "cv = (col, val)" by (cases cv)
  from Cons.prems obtain v vs' where v: "convert col val = Inr v" and vs': "convert_all cvs = Inr vs'"
    and vs: "vs = v # vs'"
    by (auto simp: cv split: sum.splits)
  from Cons.IH [OF vs'] have "length vs' = length cvs"
    and "\<forall>i<length cvs. convert (fst (cvs ! i)) (snd (cvs ! i)) = Inr (vs' ! i)" by simp_all
  then show ?case
    by (auto simp: vs cv v nth_Cons split: nat.splits)
qed

lemma convert_all_Inl:
  "convert_all cvs = Inl e \<Longrightarrow> \<exists>i<length cvs. convert (fst (cvs ! i)) (snd (cvs ! i)) = Inl e"
proof (induction cvs)
  case Nil
  then show ?case by simp
next
  case (Cons cv cvs)
  obtain col val where cv: "cv = (col, val)" by (cases cv)
  show ?case
  proof (cases "convert col val")
    case (Inl e')
    with Cons.prems have "convert (fst ((cv # cvs) ! 0)) (snd ((cv # cvs) ! 0)) = Inl e"
      by (simp add: cv)
    then show ?thesis by blast
  next
    case (Inr v)
    with Cons.prems have "convert_all cvs = Inl e"
      by (simp add: cv split: sum.splits)
    from Cons.IH [OF this] obtain i where "i < length cvs"
      "convert (fst (cvs ! i)) (snd (cvs ! i)) = Inl e" by blast
    then have "Suc i < length (cv # cvs) \<and> convert (fst ((cv # cvs) ! Suc i)) (snd ((cv # cvs) ! Suc i)) = Inl e"
      by simp
    then show ?thesis by blast
  qed
qed

lemma parse_row_eq:
  "parse_row row =
     (if length (tokenize (clean_row row)) = 62 then
        (case convert_all (zip COLUMNS (tokenize (clean_row row))) of
           Inl e \<Rightarrow> Inl e
         | Inr vs \<Rightarrow> Inr (Some (zip COLUMNS vs)))
      else Inr None)"
proof (cases "length (tokenize (clean_row row)) = 62")
  case True
  then have m: "map fst (zip COLUMNS (tokenize (clean_row row))) = COLUMNS"
    by (simp add: length_COLUMNS)
  have "fill_record (zip COLUMNS (tokenize (clean_row row))) [] =
     (case convert_all (zip COLUMNS (tokenize (clean_row row))) of Inl e \<Rightarrow> Inl e
      | Inr vs \<Rightarrow> Inr ([] @ zip (map fst (zip COLUMNS (tokenize (clean_row row)))) vs))"
    by (rule fill_record_convert_all) (simp_all add: m distinct_COLUMNS)
  then show ?thesis
    using True by (simp add: parse_row_def length_COLUMNS m split: sum.splits)
next
  case False
  then show ?thesis by (simp add: parse_row_def length_COLUMNS)
qed

lemma py_int_error: "py_int val = Inl e \<Longrightarrow> e = ValueError"
  by (auto simp: py_int_def Let_def split: if_splits)

lemma convert_int_designated:
  "int_designated col \<Longrightarrow>
   convert col val = (if val = [] \<or> val = [quote, quote] then Inr PyNone else to_int val)"
  by (auto simp: convert_def int_designated_def)

lemma convert_text:
  "\<not> int_designated col \<Longrightarrow>
   convert col val = (if val = [] \<or> val = [quote, quote] then Inr PyNone else Inr (PyStr val))"
  by (auto simp: convert_def int_designated_def)

subsection \<open>When the parser raises\<close>

lemma set_strip: "set (strip P s) \<subseteq> set s"
proof -
  have "set (strip P s) \<subseteq> set (dropWhile P s)"
    unfolding strip_def using set_dropWhileD [of _ P "rev (dropWhile P s)"] by auto
  also have "\<dots> \<subseteq> set s"
    using set_dropWhileD [of _ P s] by auto
  finally show ?thesis .
qed

lemma tok_step_no_quote:
  assumes "\<forall>t\<in>set (vals st). quote \<notin> set t" "quote \<notin> set (current_value st)"
  shows "(\<forall>t\<in>set (vals (tok_step st c)). quote \<notin> set t) \<and> quote \<notin> set (current_value (tok_step st c))"
proof -
  have "quote \<notin> set (py_strip (current_value st))"
    using assms(2) set_strip [of is_space "current_value st"] by (auto simp: py_strip_def)
  with assms show ?thesis
    by (auto simp: tok_step_def)
qed

lemma foldl_tok_step_no_quote:
  "\<forall>t\<in>set (vals st). quote \<notin> set t \<Longrightarrow> quote \<notin> set (current_value st) \<Longrightarrow>
   (\<forall>t\<in>set (vals (foldl tok_step st s)). quote \<notin> set t) \<and>
   quote \<notin> set (current_value (foldl tok_step st s))"
proof (induction s arbitrary: st)
  case Nil
  then show ?case by simp
next
  case (Cons c s)
  from tok_step_no_quote [OF Cons.prems, of c] Cons.IH [of "tok_step st c"]
  show ?case by simp
qed

lemma tokenize_no_quote: "t \<in> set (tokenize row) \<Longrightarrow> quote \<notin> set t"
proof -
  let ?st = "foldl tok_step tok_init row"
  have inv: "(\<forall>t\<in>set (vals ?st). quote \<notin> set t) \<and> quote \<notin> set (current_value ?st)"
    by (rule foldl_tok_step_no_quote) (simp_all add: tok_init_def)
  then have "quote \<notin> set (py_strip (current_value ?st))"
    using set_strip [of is_space "current_value ?st"] by (auto simp: py_strip_def)
  with inv show "t \<in> set (tokenize row) \<Longrightarrow> quote \<notin> set t"
    by (auto simp: tokenize_def tok_finish_def split: if_splits)
qed

lemma convert_all_first_error:
  "i < length cvs \<Longrightarrow> convert (fst (cvs ! i)) (snd (cvs ! i)) = Inl e \<Longrightarrow> \<exists>e'. convert_all cvs = Inl e'"
proof (induction cvs arbitrary: i)
  case Nil
  then show ?case by simp
next
  case (Cons cv cvs)
  obtain col val where cv: "cv = (col, val)" by (cases cv)
  show ?case
  proof (cases i)
    case 0
    with Cons.prems show ?thesis by (simp add: cv)
  next
    case (Suc j)
    with Cons.prems Cons.IH [of j] obtain e' where "convert_all cvs = Inl e'" by auto
    then show ?thesis by (simp add: cv split: sum.splits)
  qed
qed

lemma convert_Inl:
  "convert col val = Inl e \<longleftrightarrow>
     e = ValueError \<and> int_designated col \<and> val \<noteq> [] \<and> val \<noteq> [quote, quote] \<and> py_int val = Inl ValueError"
proof (cases "int_designated col")
  case True
  then show ?thesis
    by (auto simp: convert_int_designated to_int_def split: sum.splits dest: py_int_error)
next
  case False
  then show ?thesis by (simp add: convert_text)
qed

lemma parse_row_Inl: "parse_row row = Inl e \<longleftrightarrow> e = ValueError \<and> untypable row"
proof
  let ?toks = "tokenize (clean_row row)"
  assume "parse_row row = Inl e"
  then have len: "length ?toks = 62" and "convert_all (zip COLUMNS ?toks) = Inl e"
    by (auto simp: parse_row_eq split: if_splits sum.splits)
  from convert_all_Inl [OF this(2)] obtain i where i: "i < length (zip COLUMNS ?toks)"
    and c: "convert (fst (zip COLUMNS ?toks ! i)) (snd (zip COLUMNS ?toks ! i)) = Inl e"
    by blast
  obtain col tok where ct: "zip COLUMNS ?toks ! i = (col, tok)" by (cases "zip COLUMNS ?toks ! i")
  with i have mem: "(col, tok) \<in> set (zip COLUMNS ?toks)" by (metis nth_mem)
  from c ct have "e = ValueError" "int_designated col" "tok \<noteq> []" "py_int tok = Inl ValueError"
    by (simp_all add: convert_Inl)
  with mem len show "e = ValueError \<and> untypable row"
    by (auto simp: untypable_def list_ex_iff)
next
  let ?toks = "tokenize (clean_row row)"
  assume a: "e = ValueError \<and> untypable row"
  then have len: "length ?toks = 62" by (simp add: untypable_def)
  from a obtain col tok where mem: "(col, tok) \<in> set (zip COLUMNS ?toks)"
    and bad: "int_designated col" "tok \<noteq> []" "py_int tok = Inl ValueError"
    by (auto simp: untypable_def list_ex_iff)
  from mem have "tok \<in> set ?toks" by (rule set_zip_rightD)
  then have "quote \<notin> set tok" by (rule tokenize_no_quote)
  then have "tok \<noteq> [quote, quote]" by auto
  with bad have c: "convert col tok = Inl ValueError" by (simp add: convert_Inl)
  from mem obtain i where i: "i < length (zip COLUMNS ?toks)" and "zip COLUMNS ?toks ! i = (col, tok)"
    by (auto simp: in_set_conv_nth)
  with c have "convert (fst (zip COLUMNS ?toks ! i)) (snd (zip COLUMNS ?toks ! i)) = Inl ValueError"
    by simp
  from convert_all_first_error [OF i this] obtain e' where e': "convert_all (zip COLUMNS ?toks) = Inl e'"
    by blast
  then have "parse_row row = Inl e'" using len by (simp add: parse_row_eq)
  moreover from this have "e' = ValueError"
    by (auto simp: parse_row_eq split: if_splits sum.splits dest!: convert_all_Inl simp: convert_Inl)
  ultimately show "parse_row row = Inl e" using a by simp
qed

lemma rows_loop_Inl: "rows_loop rows acc = Inl e \<Longrightarrow> \<exists>row\<in>set rows. parse_row row = Inl e"
  by (induction rows arbitrary: acc) (auto split: sum.splits option.splits)

lemma rows_loop_raises: "row \<in> set rows \<Longrightarrow> parse_row row = Inl e \<Longrightarrow> \<exists>e'. rows_loop rows acc = Inl e'"
  by (induction rows arbitrary: acc) (auto split: sum.splits option.splits)

lemma rows_loop_Inr: "rows_loop rows acc = Inr rs \<Longrightarrow> rs = acc @ List.map_filter row_record rows"
proof (induction rows arbitrary: acc)
  case Nil
  then show ?case by simp
next
  case (Cons row rows)
  show ?case
  proof (cases "parse_row row")
    case (Inl e)
    with Cons.prems show ?thesis by simp
  next
    case (Inr r)
    show ?thesis
    proof (cases r)
      case None
      with Inr Cons.prems have "rows_loop rows acc = Inr rs" by simp
      from Cons.IH [OF this] show ?thesis
        by (simp add: row_record_def Inr None)
    next
      case (Some rcd)
      with Inr Cons.prems have "rows_loop rows (acc @ [rcd]) = Inr rs" by simp
      from Cons.IH [OF this] show ?thesis
        by (simp add: row_record_def Inr Some)
    qed
  qed
qed

lemma parse_cases:
  "(if \<exists>row\<in>set (all_rows s). untypable row
    then parse_sql_insert_values s = Inl ValueError
    else parse_sql_insert_values s = Inr (List.map_filter row_record (all_rows s)))"
proof (cases "\<exists>row\<in>set (all_rows s). untypable row")
  case True
  then obtain row where "row \<in> set (all_rows s)" "parse_row row = Inl ValueError"
    by (auto simp: parse_row_Inl)
  from rows_loop_raises [OF this] obtain e' where e': "rows_loop (all_rows s) [] = Inl e'" by blast
  from rows_loop_Inl [OF this] have "e' = ValueError" by (auto simp: parse_row_Inl)
  with e' True show ?thesis by (simp add: parse_rows_loop)
next
  case False
  show ?thesis
  proof (cases "rows_loop (all_rows s) []")
    case (Inl e)
    from rows_loop_Inl [OF this] False show ?thesis by (auto simp: parse_row_Inl)
  next
    case (Inr rs)
    from rows_loop_Inr [OF this] Inr False show ?thesis by (simp add: parse_rows_loop)
  qed
qed

subsection \<open>The sample inputs, evaluated\<close>

lemma tokens_a:
  "tokenize (clean_row row_a) = [''7'', ''1'', ''3'', ''2020'', ''5''] @ replicate 50 ''1'' @
     [''9'', ''0'', ''0'', ''a,b'', [], ''0'', ''1'']"
  by code_simp

lemma tokens_b:
  "tokenize (clean_row row_b) = [''7'', ''1'', ''4'', ''2021'', ''12''] @ replicate 50 ''2'' @
     [''9'', ''0'', ''0'', ''c'', ''d'', ''0'', ''1'']"
  by code_simp

lemma tokens_null:
  "tokenize (clean_row row_null) = [''NULL'', ''1'', ''3'', ''2020'', ''5''] @ replicate 50 ''1'' @
     [''9'', ''0'', ''0'', ''a'', ''b'', ''0'', ''1'']"
  by code_simp

lemma tokens_gap:
  "tokenize (clean_row row_gap) = [''7'', ''1'', ''3'', ''2020'', ''5''] @ replicate 50 ''1'' @
     [''9'', ''0'', ''0'', ''a'', ''0'', ''1'']"
  by code_simp

lemma typed_a:
  "convert_all (zip COLUMNS ([''7'', ''1'', ''3'', ''2020'', ''5''] @ replicate 50 ''1'' @
     [''9'', ''0'', ''0'', ''a,b'', [], ''0'', ''1''])) = Inr values_a"
  by code_simp

lemma typed_b:
  "convert_all (zip COLUMNS ([''7'', ''1'', ''4'', ''2021'', ''12''] @ replicate 50 ''2'' @
     [''9'', ''0'', ''0'', ''c'', ''d'', ''0'', ''1''])) = Inr values_b"
  by code_simp

lemma length_tokens_a: "length (tokenize (clean_row row_a)) = 62"
  by (simp add: tokens_a)

lemma length_tokens_b: "length (tokenize (clean_row row_b)) = 62"
  by (simp add: tokens_b)

lemma length_tokens_null: "length (tokenize (clean_row row_null)) = 62"
  by (simp add: tokens_null)

lemma parse_row_a: "parse_row row_a = Inr (Some record_a)"
  apply (simp only: parse_row_eq length_tokens_a)
  apply (simp only: tokens_a typed_a record_a_def sum.case)
  apply simp
  done

lemma parse_row_b: "parse_row row_b = Inr (Some record_b)"
  apply (simp only: parse_row_eq length_tokens_b)
  apply (simp only: tokens_b typed_b record_b_def sum.case)
  apply simp
  done

lemma parse_row_short: "parse_row ''1,2'' = Inr None"
proof -
  have "tokenize (clean_row ''1,2'') = [''1'', ''2'']" by code_simp
  then show ?thesis by (simp add: parse_row_eq)
qed

lemma untypable_null: "untypable row_null"
proof -
  have "int_designated ''cd_sistema''" by (simp add: int_designated_def)
  moreover have "py_int ''NULL'' = Inl ValueError" by code_simp
  moreover have "(''cd_sistema'', ''NULL'') \<in> set (zip COLUMNS (tokenize (clean_row row_null)))"
    by (simp add: tokens_null COLUMNS_def)
  ultimately show ?thesis
    unfolding untypable_def list_ex_iff using length_tokens_null by fastforce
qed

lemma findall_sample:
  "findall sample_sql = [row_a @ ''),(1,2),'' @ [CHR 0x0A] @ ''('' @ row_b @ ''),('' @ row_a]"
  by code_simp

lemma split_sample:
  "re_split (row_a @ ''),(1,2),'' @ [CHR 0x0A] @ ''('' @ row_b @ ''),('' @ row_a) =
     [row_a, ''1,2'', row_b, row_a]"
  by code_simp

lemma all_rows_sample: "all_rows sample_sql = [row_a, ''1,2'', row_b, row_a]"
  by (simp only: all_rows_def findall_sample split_sample list.map concat.simps append_Nil2)

lemma parse_sample: "parse_sql_insert_values sample_sql = Inr [record_a, record_b, record_a]"
  by (simp add: parse_rows_loop all_rows_sample parse_row_a parse_row_b parse_row_short)

lemma all_rows_null: "all_rows null_sql = [row_null]"
proof -
  have "findall null_sql = [row_null]" by code_simp
  moreover have "re_split row_null = [row_null]" by code_simp
  ultimately show ?thesis by (simp add: all_rows_def)
qed

text \<open>
  C1 (as amended). The parser does not return for every text. It raises \<open>ValueError\<close>
  exactly when some tuple of the text has 62 tokens and, in an integer-designated column, a
  token that is not empty and that \<open>int\<close> rejects; otherwise it returns a list of records.
  Only a tuple whose token count is not 62 is skipped (C4).
\<close>

theorem parse_raises_iff_untypable:
  "(if \<exists>row\<in>set (all_rows s). untypable row
    then parse_sql_insert_values s = Inl ValueError
    else \<exists>records. parse_sql_insert_values s = Inr records)"
  using parse_cases [of s] by (simp split: if_splits)

theorem parse_raises_iff_untypable_witness:
  "\<not> (\<exists>row\<in>set (all_rows sample_sql). untypable row) \<and>
   (\<exists>records. parse_sql_insert_values sample_sql = Inr records)"
  using parse_raises_iff_untypable [of sample_sql] parse_sample
  by (auto split: if_splits)

text \<open>
  The claim as stated fails on a statement whose tuple has \<open>NULL\<close> in the column
  \<open>cd_sistema\<close>: the tuple has 62 tokens and \<open>int('NULL')\<close> raises.
\<close>

theorem null_literal_raises:
  "parse_sql_insert_values null_sql = Inl ValueError"
  using parse_cases [of null_sql] untypable_null by (simp add: all_rows_null)

subsection \<open>The records of the parser\<close>

lemma parse_row_Some:
  assumes "parse_row row = Inr (Some rcd)"
  shows "length (tokenize (clean_row row)) = 62 \<and>
         (\<exists>vs. length vs = 62 \<and> rcd = zip COLUMNS vs \<and>
               (\<forall>i<62. convert (COLUMNS ! i) (tokenize (clean_row row) ! i) = Inr (vs ! i)))"
proof -
  let ?toks = "tokenize (clean_row row)"
  from assms have len: "length ?toks = 62"
    by (auto simp: parse_row_eq split: if_splits)
  with assms obtain vs where vs: "convert_all (zip COLUMNS ?toks) = Inr vs" and r: "rcd = zip COLUMNS vs"
    by (auto simp: parse_row_eq split: sum.splits)
  from convert_all_Inr [OF vs] len
  have "length vs = 62"
    and "\<forall>i<62. convert (fst (zip COLUMNS ?toks ! i)) (snd (zip COLUMNS ?toks ! i)) = Inr (vs ! i)"
    by (simp_all add: length_COLUMNS)
  with len r show ?thesis by (auto simp: length_COLUMNS)
qed

lemma parsed_records:
  assumes "parse_sql_insert_values s = Inr records" "rcd \<in> set records"
  shows "\<exists>row\<in>set (all_rows s). parse_row row = Inr (Some rcd)"
proof -
  from assms(1) have "records = List.map_filter row_record (all_rows s)"
    using rows_loop_Inr [of "all_rows s" "[]" records] by (simp add: parse_rows_loop)
  with assms(2) obtain row where "row \<in> set (all_rows s)" "row_record row = Some rcd"
    by (auto simp: List.map_filter_def)
  then show ?thesis
    by (auto simp: row_record_def split: sum.splits option.splits)
qed

lemma to_int_typed: "to_int val = Inr v \<Longrightarrow> \<exists>n. v = PyInt n"
  by (auto simp: to_int_def split: sum.splits)

lemma parse_row_Some_typable:
  assumes "parse_row row = Inr (Some rcd)" and "i < 62" and "int_designated (COLUMNS ! i)"
  shows "tokenize (clean_row row) ! i = [] \<or> (\<exists>n. py_int (tokenize (clean_row row) ! i) = Inr n)"
proof -
  from assms(1) have "\<forall>e. parse_row row \<noteq> Inl e" by simp
  then have ok: "\<not> untypable row" by (simp add: parse_row_Inl)
  from parse_row_Some [OF assms(1)] have len: "length (tokenize (clean_row row)) = 62" by simp
  with assms(2) have "(COLUMNS ! i, tokenize (clean_row row) ! i) \<in> set (zip COLUMNS (tokenize (clean_row row)))"
    by (auto simp: in_set_conv_nth length_COLUMNS intro!: exI [of _ i])
  with ok len assms(3)
  have "tokenize (clean_row row) ! i = [] \<or> py_int (tokenize (clean_row row) ! i) \<noteq> Inl ValueError"
    by (auto simp: untypable_def list_ex_iff)
  then show ?thesis
    by (cases "py_int (tokenize (clean_row row) ! i)") (auto dest: py_int_error)
qed

lemma text_columns:
  "filter (\<lambda>col. \<not> int_designated col) COLUMNS = [''tx_justificativa'', ''tx_plano'']"
  by code_simp

text \<open>
  C3. In every record that the parser returns, each integer-designated column of the
  schema (all of them but \<open>tx_justificativa\<close> and \<open>tx_plano\<close>) holds null or an integer,
  never a string.
\<close>

theorem integer_columns_typed:
  assumes "parse_sql_insert_values s = Inr records" and "rcd \<in> set records"
    and "col \<in> set COLUMNS" and "int_designated col"
  shows "\<exists>v. map_of rcd col = Some v \<and> (v = PyNone \<or> (\<exists>n. v = PyInt n))"
proof -
  from parsed_records [OF assms(1,2)] obtain row where row: "parse_row row = Inr (Some rcd)"
    by blast
  from parse_row_Some [OF this] obtain vs where len: "length vs = 62" and r: "rcd = zip COLUMNS vs"
    and c: "\<forall>i<62. convert (COLUMNS ! i) (tokenize (clean_row row) ! i) = Inr (vs ! i)"
    by blast
  from assms(3) obtain i where i: "i < 62" and col: "col = COLUMNS ! i"
    by (auto simp: in_set_conv_nth length_COLUMNS)
  have "map_of (zip COLUMNS vs) (COLUMNS ! i) = Some (vs ! i)"
    using i len by (intro map_of_zip_nth) (simp_all add: length_COLUMNS distinct_COLUMNS)
  then have look: "map_of rcd col = Some (vs ! i)" by (simp add: r col)
  from c i have "convert col (tokenize (clean_row row) ! i) = Inr (vs ! i)" by (simp add: col)
  with assms(4) have "vs ! i = PyNone \<or> (\<exists>n. vs ! i = PyInt n)"
    by (auto simp: convert_int_designated split: if_splits dest: to_int_typed)
  with look show ?thesis by simp
qed

theorem integer_columns_typed_witness:
  "parse_sql_insert_values sample_sql = Inr [record_a, record_b, record_a] \<and>
   ''cd_cooperativa'' \<in> set COLUMNS \<and> int_designated ''cd_cooperativa'' \<and>
   map_of record_b ''cd_cooperativa'' = Some (PyInt 4)"
proof -
  have m: "''cd_cooperativa'' \<in> set COLUMNS" by (simp add: COLUMNS_def)
  have d: "int_designated ''cd_cooperativa''" by (simp add: int_designated_def)
  have r: "record_b \<in> set [record_a, record_b, record_a]" by simp
  have v: "map_of record_b ''cd_cooperativa'' = Some (PyInt 4)"
    by (simp add: record_b_def COLUMNS_def values_b_def)
  from integer_columns_typed [OF parse_sample r m d] parse_sample m d v
  show ?thesis by simp
qed

text \<open>
  C6 (as amended). A tuple of 62 tokens, each of which in an integer-designated column is
  empty or accepted by \<open>int\<close>, has exactly one record: the loop appends it, its 62 keys are
  the columns of the schema in their order, and its i-th value is the i-th token typed for
  the i-th column.
\<close>

theorem typable_tuple_one_record:
  assumes "length (tokenize (clean_row row)) = 62"
    and "\<forall>i<62. int_designated (COLUMNS ! i) \<longrightarrow>
           tokenize (clean_row row) ! i = [] \<or> (\<exists>n. py_int (tokenize (clean_row row) ! i) = Inr n)"
  shows "\<exists>rcd. parse_row row = Inr (Some rcd) \<and>
           rows_loop [row] records = Inr (records @ [rcd]) \<and>
           length rcd = 62 \<and> map fst rcd = COLUMNS \<and>
           (\<forall>i<62. convert (COLUMNS ! i) (tokenize (clean_row row) ! i) = Inr (snd (rcd ! i)))"
proof -
  let ?toks = "tokenize (clean_row row)"
  have "\<not> untypable row"
  proof
    assume "untypable row"
    then obtain col tok where mem: "(col, tok) \<in> set (zip COLUMNS ?toks)"
      and bad: "int_designated col" "tok \<noteq> []" "py_int tok = Inl ValueError"
      by (auto simp: untypable_def list_ex_iff)
    from mem obtain i where "i < 62" "COLUMNS ! i = col" "?toks ! i = tok"
      using assms(1) by (auto simp: in_set_conv_nth length_COLUMNS)
    with assms(2) bad show False by auto
  qed
  then have "\<forall>e. parse_row row \<noteq> Inl e" by (simp add: parse_row_Inl)
  then obtain rcd where rcd: "parse_row row = Inr (Some rcd)"
    using assms(1) by (cases "parse_row row") (auto simp: parse_row_eq split: sum.splits)
  from parse_row_Some [OF this] obtain vs where len: "length vs = 62" and r: "rcd = zip COLUMNS vs"
    and c: "\<forall>i<62. convert (COLUMNS ! i) (?toks ! i) = Inr (vs ! i)"
    by blast
  have "length rcd = 62" "map fst rcd = COLUMNS"
    using len by (simp_all add: r length_COLUMNS)
  moreover have "\<forall>i<62. snd (rcd ! i) = vs ! i"
    using len by (simp add: r length_COLUMNS)
  moreover have "rows_loop [row] records = Inr (records @ [rcd])"
    by (simp add: rcd)
  ultimately show ?thesis using rcd c by auto
qed

theorem typable_tuple_one_record_witness:
  "length (tokenize (clean_row row_a)) = 62 \<and> parse_row row_a = Inr (Some record_a) \<and>
   rows_loop [row_a] [record_b] = Inr ([record_b] @ [record_a]) \<and>
   map fst record_a = COLUMNS \<and> snd (record_a ! 2) = PyInt 3"
proof -
  have h: "\<forall>i<62. int_designated (COLUMNS ! i) \<longrightarrow>
      tokenize (clean_row row_a) ! i = [] \<or> (\<exists>n. py_int (tokenize (clean_row row_a) ! i) = Inr n)"
    using parse_row_Some_typable [OF parse_row_a] by blast
  have v: "snd (record_a ! 2) = PyInt 3"
    by (simp add: record_a_def COLUMNS_def values_a_def)
  from typable_tuple_one_record [OF length_tokens_a h, of "[record_b]"] length_tokens_a v
  show ?thesis by (auto simp: parse_row_a)
qed

text \<open>
  The claim as stated fails on a tuple of 62 tokens whose first one is \<open>NULL\<close>: typing it
  raises \<open>ValueError\<close>, and there is no record.
\<close>

theorem untypable_tuple_no_record:
  "length (tokenize (clean_row row_null)) = 62 \<and> parse_row row_null = Inl ValueError"
  using untypable_null length_tokens_null by (simp add: parse_row_Inl)

subsection \<open>Tuples with the wrong number of fields\<close>

text \<open>
  C4. A tuple whose token count differs from the 62 columns of the schema has no record
  and raises nothing, and the loop over the tuples of its statement gives what it gives
  without that tuple: the tuples before and after it are processed as if it were absent.
\<close>

theorem wrong_count_skipped:
  assumes "length (tokenize (clean_row row)) \<noteq> 62"
  shows "parse_row row = Inr None \<and>
         rows_loop (before @ row # after) records = rows_loop (before @ after) records"
proof -
  from assms have skip: "parse_row row = Inr None"
    by (simp add: parse_row_def length_COLUMNS Let_def)
  have "rows_loop (before @ row # after) records = rows_loop (before @ after) records"
    by (simp add: rows_loop_append skip split: sum.splits)
  with skip show ?thesis ..
qed

theorem wrong_count_skipped_witness:
  "length (tokenize (clean_row ''1,2'')) \<noteq> 62 \<and> parse_row ''1,2'' = Inr None \<and>
   rows_loop ([row_a] @ ''1,2'' # [row_b]) [] = Inr [record_a, record_b] \<and>
   rows_loop ([row_a] @ [row_b]) [] = Inr [record_a, record_b]"
proof -
  have "tokenize (clean_row ''1,2'') = [''1'', ''2'']" by code_simp
  then have h: "length (tokenize (clean_row ''1,2'')) \<noteq> 62" by simp
  from wrong_count_skipped [OF h, of "[row_a]" "[row_b]" "[]"] h
  show ?thesis by (simp add: parse_row_a parse_row_b)
qed

subsection \<open>Quoted commas\<close>

lemma tok_vals_shift:
  "vals (foldl tok_step st s) =
     vs @ vals (foldl tok_step (st\<lparr>vals := ws\<rparr>) s) \<and>
   current_value (foldl tok_step st s) = current_value (foldl tok_step (st\<lparr>vals := ws\<rparr>) s) \<and>
   in_quotes (foldl tok_step st s) = in_quotes (foldl tok_step (st\<lparr>vals := ws\<rparr>) s)"
  if "vals st = vs @ ws"
  using that
proof (induction s arbitrary: st ws)
  case Nil
  then show ?case by simp
next
  case (Cons c s)
  have "vals (tok_step st c) = vs @ vals (tok_step (st\<lparr>vals := ws\<rparr>) c)"
    using Cons.prems by (simp add: tok_step_def)
  moreover have "tok_step (st\<lparr>vals := ws\<rparr>) c = (tok_step st c)\<lparr>vals := vals (tok_step (st\<lparr>vals := ws\<rparr>) c)\<rparr>"
    by (simp add: tok_step_def)
  ultimately show ?case
    using Cons.IH [of "tok_step st c" "vals (tok_step (st\<lparr>vals := ws\<rparr>) c)"]
    by simp
qed

lemma quoted_run:
  assumes "\<not> in_quotes st" "quote \<notin> set q"
  shows "foldl tok_step st (quote # q @ [quote]) =
           st\<lparr>in_quotes := False, vals := vals st @ [q], current_value := []\<rparr>"
proof -
  have inner: "foldl tok_step (st'\<lparr>in_quotes := True\<rparr>) q = st'\<lparr>in_quotes := True, current_value := current_value st' @ q\<rparr>"
    if "quote \<notin> set q" for st' :: tok_state and q
    using that
  proof (induction q arbitrary: st')
    case Nil
    then show ?case by simp
  next
    case (Cons c q)
    have "tok_step (st'\<lparr>in_quotes := True\<rparr>) c = (st'\<lparr>current_value := current_value st' @ [c]\<rparr>)\<lparr>in_quotes := True\<rparr>"
      using Cons.prems by (auto simp: tok_step_def)
    with Cons show ?case by simp
  qed
  have "tok_step st quote = (st\<lparr>current_value := []\<rparr>)\<lparr>in_quotes := True\<rparr>"
    using assms by (simp add: tok_step_def)
  then have "foldl tok_step st (quote # q @ [quote]) =
      tok_step ((st\<lparr>current_value := []\<rparr>)\<lparr>in_quotes := True, current_value := q\<rparr>) quote"
    using inner [OF assms(2), of "st\<lparr>current_value := []\<rparr>"] by simp
  then show ?thesis by (simp add: tok_step_def)
qed

lemma tokenize_quoted:
  assumes "\<not> in_quotes (foldl tok_step tok_init before)" and "quote \<notin> set q"
  shows "tokenize (before @ quote # q @ quote # after) =
           vals (foldl tok_step tok_init before) @ [q] @ tokenize after"
proof -
  let ?st = "foldl tok_step tok_init before"
  let ?st' = "?st\<lparr>in_quotes := False, vals := vals ?st @ [q], current_value := []\<rparr>"
  have "foldl tok_step tok_init (before @ quote # q @ quote # after) =
          foldl tok_step (foldl tok_step ?st (quote # q @ [quote])) after"
    by simp
  also have "\<dots> = foldl tok_step ?st' after"
    using quoted_run [OF assms] by simp
  finally have run: "foldl tok_step tok_init (before @ quote # q @ quote # after) = foldl tok_step ?st' after" .
  have "?st'\<lparr>vals := []\<rparr> = tok_init"
    by (simp add: tok_init_def)
  with tok_vals_shift [of ?st' "vals ?st @ [q]" "[]" after]
  have "vals (foldl tok_step ?st' after) = (vals ?st @ [q]) @ vals (foldl tok_step tok_init after)"
    and "current_value (foldl tok_step ?st' after) = current_value (foldl tok_step tok_init after)"
    by simp_all
  then show ?thesis
    unfolding tokenize_def run by (simp add: tok_finish_def)
qed

text \<open>
  The tokenizer knows no escape: every quote character opens or closes a literal. In the
  tuple \<open>1,'it\'s, x',2\<close>, whose second field is the SQL literal with an escaped quote, the
  literal ends at the escaped quote, the comma after \<open>s\<close> delimits a field although it lies
  inside the literal, the text \<open> x\<close> is dropped by the quote that follows it, and the last
  comma is kept inside a token: four tokens instead of three.
\<close>

theorem escaped_quote_comma_delimits:
  "tokenize (clean_row (''1,'' @ [quote] @ ''it'' @ [CHR 0x5C, quote] @ ''s, x'' @ [quote] @ '',2'')) =
     [''1'', ''it'' @ [CHR 0x5C], ''s'', '',2'']"
  by (simp add: tokenize_def clean_row_def tok_finish_def tok_step_def tok_init_def quote_def
      py_strip_def strip_def is_space_def)

text \<open>
  The tuples are cut out of the statement before any of them is tokenized, by a pattern
  that does not look at quotes: a literal that holds the text \<open>),(\<close> is cut in two, and its
  two halves fall into different tuples.
\<close>

lemma separator_in_literal_cuts:
  "all_rows (''INSERT INTO `alerta_cooperativa_sicoob` VALUES (1,'' @ [quote] @ ''a),(b'' @
      [quote] @ '',2);'') =
     [''1,'' @ [quote] @ ''a'', ''b'' @ [quote] @ '',2''] \<and>
   map (tokenize \<circ> clean_row) [''1,'' @ [quote] @ ''a'', ''b'' @ [quote] @ '',2''] =
     [[''1'', ''a''], ['',2'']]"
proof -
  have "all_rows (''INSERT INTO `alerta_cooperativa_sicoob` VALUES (1,'' @ [quote] @ ''a),(b'' @
      [quote] @ '',2);'') = [''1,'' @ [quote] @ ''a'', ''b'' @ [quote] @ '',2'']"
    by code_simp
  moreover have "map (tokenize \<circ> clean_row) [''1,'' @ [quote] @ ''a'', ''b'' @ [quote] @ '',2''] =
     [[''1'', ''a''], ['',2'']]"
    by (simp add: tokenize_def clean_row_def tok_finish_def tok_step_def tok_init_def quote_def
        py_strip_def strip_def is_space_def)
  ultimately show ?thesis by (rule conjI)
qed

text \<open>
  The pattern of a statement stops at the first semicolon, quoted or not: a statement whose
  only tuple holds a literal with a semicolon is not matched, and gives no tuple.
\<close>

lemma semicolon_in_literal_no_tuple:
  "all_rows (''INSERT INTO `alerta_cooperativa_sicoob` VALUES (1,'' @ [quote] @ ''a;b'' @
      [quote] @ '',2);'') = []"
  by code_simp

text \<open>
  C5 (as amended). Where the tokenizer meets a quote character outside a literal, the text
  from there up to the next quote character becomes one token, commas and blanks
  included, whatever precedes and follows: the tokens are those read before, then the
  quoted content, then the tokens of the rest. The content holds no quote character: an
  escaped quote ends the literal like any other.
\<close>

theorem quoted_commas_one_field:
  assumes "\<not> in_quotes (foldl tok_step tok_init before)" and "quote \<notin> set q"
  shows "tokenize (before @ quote # q @ quote # after) =
           vals (foldl tok_step tok_init before) @ [q] @ tokenize after"
  using tokenize_quoted [OF assms] .

theorem quoted_commas_one_field_witness:
  "\<not> in_quotes (foldl tok_step tok_init ''1,'') \<and> quote \<notin> set ''a,b,,c'' \<and>
   tokenize (''1,'' @ quote # ''a,b,,c'' @ quote # '',2'') = [''1'', ''a,b,,c'', ''2'']"
proof -
  have h1: "\<not> in_quotes (foldl tok_step tok_init ''1,'')"
    by (simp add: tok_step_def tok_init_def quote_def py_strip_def strip_def is_space_def)
  have h2: "quote \<notin> set ''a,b,,c''"
    by (simp add: quote_def)
  have v: "vals (foldl tok_step tok_init ''1,'') = [''1'']"
    by (simp add: tok_step_def tok_init_def quote_def py_strip_def strip_def is_space_def)
  have t: "tokenize '',2'' = [''2'']"
    by (simp add: tokenize_def tok_finish_def tok_step_def tok_init_def quote_def py_strip_def strip_def is_space_def)
  from quoted_commas_one_field [OF h1 h2, of "'',2''"] h1 h2 v t show ?thesis by simp
qed

subsection \<open>Empty tokens\<close>

lemma convert_None: "convert col val = Inr PyNone \<longleftrightarrow> val = [] \<or> val = [quote, quote]"
  by (cases "int_designated col")
     (auto simp: convert_int_designated convert_text dest: to_int_typed)

lemma space_not_delimiter: "is_space c \<Longrightarrow> c \<noteq> quote \<and> c \<noteq> CHR '',''"
  by (auto simp: is_space_def quote_def)

lemma strip_blank:
  assumes "\<forall>c\<in>set s. P c"
  shows "strip P s = []"
proof -
  from assms have d: "dropWhile P s = []" by simp
  show ?thesis unfolding strip_def d by simp
qed

lemma blank_run:
  "\<forall>c\<in>set blank. is_space c \<Longrightarrow> \<not> in_quotes st \<Longrightarrow>
   foldl tok_step st blank = st\<lparr>current_value := current_value st @ blank\<rparr>"
proof (induction blank arbitrary: st)
  case Nil
  then show ?case by simp
next
  case (Cons c blank)
  from Cons.prems have c: "c \<noteq> quote" "c \<noteq> CHR '',''"
    using space_not_delimiter [of c] by simp_all
  then have step: "tok_step st c = st\<lparr>current_value := current_value st @ [c]\<rparr>"
    by (simp add: tok_step_def)
  from Cons.prems have "\<forall>c\<in>set blank. is_space c" "\<not> in_quotes (st\<lparr>current_value := current_value st @ [c]\<rparr>)"
    by simp_all
  from Cons.IH [OF this] show ?case by (simp add: step)
qed

lemma blank_field_dropped:
  assumes "\<not> in_quotes (foldl tok_step tok_init before)" and "\<forall>c\<in>set blank. is_space c"
  shows "tokenize (before @ '','' @ blank @ '','' @ after) = tokenize (before @ '','' @ after)"
proof -
  let ?st0 = "foldl tok_step tok_init before"
  let ?st1 = "tok_step ?st0 (CHR '','')"
  from assms(1) have q1: "\<not> in_quotes ?st1" and c1: "current_value ?st1 = []"
    by (simp_all add: tok_step_def quote_def)
  have "foldl tok_step ?st1 (blank @ '','') = tok_step (?st1\<lparr>current_value := blank\<rparr>) (CHR '','')"
    using blank_run [OF assms(2) q1] c1 by simp
  also have "\<dots> = ?st1\<lparr>current_value := []\<rparr>"
    using q1 strip_blank [OF assms(2)] by (simp add: tok_step_def py_strip_def quote_def)
  also have "\<dots> = ?st1" using c1 by simp
  finally have "foldl tok_step ?st1 (blank @ '','') = ?st1" .
  then have "foldl tok_step tok_init (before @ '','' @ blank @ '','' @ after) =
             foldl tok_step tok_init (before @ '','' @ after)"
    by simp
  then show ?thesis by (simp add: tokenize_def)
qed

text \<open>
  C2 (as amended). In the record of a tuple a field is null exactly when its token is the
  empty string. An empty literal (two quotes) met outside a literal gives such a token.
  A field with nothing but blanks between two commas gives no token at all: the tokens
  are those of the text without that field.
\<close>

theorem empty_tokens:
  assumes "parse_row row = Inr (Some rcd)" and "i < 62"
    and "\<not> in_quotes (foldl tok_step tok_init before)" and "\<forall>c\<in>set blank. is_space c"
  shows "(snd (rcd ! i) = PyNone \<longleftrightarrow> tokenize (clean_row row) ! i = []) \<and>
         tokenize (before @ [quote, quote] @ after) =
           vals (foldl tok_step tok_init before) @ [[]] @ tokenize after \<and>
         tokenize (before @ '','' @ blank @ '','' @ after) = tokenize (before @ '','' @ after)"
proof -
  let ?toks = "tokenize (clean_row row)"
  from parse_row_Some [OF assms(1)] obtain vs where len: "length ?toks = 62" "length vs = 62"
    and r: "rcd = zip COLUMNS vs"
    and c: "\<forall>i<62. convert (COLUMNS ! i) (?toks ! i) = Inr (vs ! i)"
    by blast
  from assms(2) len have "?toks ! i \<in> set ?toks" by simp
  then have "quote \<notin> set (?toks ! i)" by (rule tokenize_no_quote)
  then have nq: "?toks ! i \<noteq> [quote, quote]" by auto
  from assms(2) len have "snd (rcd ! i) = vs ! i" by (simp add: r length_COLUMNS)
  moreover from c assms(2) have "convert (COLUMNS ! i) (?toks ! i) = Inr (vs ! i)" by simp
  ultimately have a: "snd (rcd ! i) = PyNone \<longleftrightarrow> ?toks ! i = []"
    using convert_None [of "COLUMNS ! i" "?toks ! i"] nq by auto
  have b: "tokenize (before @ [quote, quote] @ after) =
           vals (foldl tok_step tok_init before) @ [[]] @ tokenize after"
    using tokenize_quoted [OF assms(3), of "[]" after] by simp
  from a b blank_field_dropped [OF assms(3,4)] show ?thesis by blast
qed

theorem empty_tokens_witness:
  "parse_row row_a = Inr (Some record_a) \<and>
   snd (record_a ! 59) = PyNone \<and> tokenize (clean_row row_a) ! 59 = [] \<and>
   tokenize (''1,'' @ [quote, quote] @ '',2'') = [''1'', [], ''2''] \<and>
   tokenize (''1,'' @ '','' @ '' '' @ '','' @ '',2'') = [''1'', ''2'']"
proof -
  have h2: "(59::nat) < 62" by simp
  have h3: "\<not> in_quotes (foldl tok_step tok_init ''1,'')"
    by (simp add: tok_step_def tok_init_def quote_def py_strip_def strip_def is_space_def)
  have h4: "\<forall>c\<in>set '' ''. is_space c" by (simp add: is_space_def)
  have v: "vals (foldl tok_step tok_init ''1,'') = [''1'']"
    by (simp add: tok_step_def tok_init_def quote_def py_strip_def strip_def is_space_def)
  have t: "tokenize '',2'' = [''2'']" "tokenize (''1,'' @ '','' @ '',2'') = [''1'', ''2'']"
    by code_simp+
  have n: "tokenize (clean_row row_a) ! 59 = []"
    by (simp add: tokens_a nth_append)
  from empty_tokens [OF parse_row_a h2 h3 h4, of "'',2''"] n v t
  show ?thesis by (simp add: parse_row_a)
qed

text \<open>
  The claim as stated fails on \<open>row_gap\<close>, a tuple of 62 fields whose field
  \<open>tx_plano\<close> is empty and unquoted: the field is omitted from the token list, the tuple has
  61 tokens and no record.
\<close>

theorem unquoted_empty_field_omitted:
  "tokenize (clean_row row_gap) = [''7'', ''1'', ''3'', ''2020'', ''5''] @ replicate 50 ''1'' @
     [''9'', ''0'', ''0'', ''a'', ''0'', ''1''] \<and>
   length (tokenize (clean_row row_gap)) = 61 \<and> parse_row row_gap = Inr None"
proof -
  have "length (tokenize (clean_row row_gap)) = 61" by (simp add: tokens_gap)
  then show ?thesis by (simp add: tokens_gap parse_row_eq)
qed

section \<open>Properties of the writer\<close>

subsection \<open>Grouping by \<open>cd_cooperativa\<close>\<close>

lemma written_append: "written (a @ b) = written a @ written b"
  by (induction a rule: written.induct) simp_all

lemma group_step_grouped:
  assumes "grouped d prev" and "coop_key_of r = Inr k"
  shows "\<exists>d'. group_step d r = Inr d' \<and> grouped d' (prev @ [r])"
proof -
  let ?d0 = "if map_of d k = None then AList.update k [] d else d"
  let ?d' = "AList.map_entry k (\<lambda>rs. rs @ [r]) ?d0"
  have step: "group_step d r = Inr ?d'"
    by (simp add: group_step_def assms(2))
  from assms(1) have dist: "distinct (map fst d)"
    and look: "\<And>k'. map_of d k' =
        (if \<exists>r\<in>set prev. coop_key_of r = Inr k' then Some (filter (\<lambda>r. coop_key_of r = Inr k') prev)
         else None)"
    by (simp_all add: grouped_def)
  have "distinct (map fst ?d0)" using dist by (simp add: distinct_update)
  then have d1: "distinct (map fst ?d')" by (rule distinct_map_entry)
  have none: "filter (\<lambda>r. coop_key_of r = Inr k) prev = []" if "map_of d k = None"
  proof -
    from that look [of k] have "\<not> (\<exists>r\<in>set prev. coop_key_of r = Inr k)" by (simp split: if_splits)
    then show ?thesis by (auto simp: filter_empty_conv)
  qed
  have m0: "map_of ?d0 k = Some (filter (\<lambda>r. coop_key_of r = Inr k) prev)"
  proof (cases "map_of d k")
    case None
    then show ?thesis by (simp add: update_conv' none)
  next
    case (Some l)
    then have "?d0 = d" by simp
    moreover from Some look [of k] have "map_of d k = Some (filter (\<lambda>r. coop_key_of r = Inr k) prev)"
      by (auto split: if_splits)
    ultimately show ?thesis by simp
  qed
  have other: "map_of ?d0 k' = map_of d k'" if "k' \<noteq> k" for k'
    using that by (simp add: update_conv')
  have "map_of ?d' k' =
        (if \<exists>r\<in>set (prev @ [r]). coop_key_of r = Inr k'
         then Some (filter (\<lambda>r. coop_key_of r = Inr k') (prev @ [r])) else None)" for k'
  proof (cases "k' = k")
    case True
    then show ?thesis
      unfolding map_of_map_entry using m0 assms(2) by simp
  next
    case False
    then have "map_of ?d' k' = map_of d k'"
      unfolding map_of_map_entry using other [OF False] by simp
    with False assms(2) look [of k'] show ?thesis by auto
  qed
  with d1 have "grouped ?d' (prev @ [r])" unfolding grouped_def by blast
  with step show ?thesis by blast
qed

lemma group_loop_grouped:
  "grouped d prev \<Longrightarrow> \<forall>r\<in>set rs. \<exists>k. coop_key_of r = Inr k \<Longrightarrow>
   \<exists>d'. group_loop rs d = Inr d' \<and> grouped d' (prev @ rs)"
proof (induction rs arbitrary: d prev)
  case Nil
  then show ?case by simp
next
  case (Cons r rs)
  from Cons.prems(2) obtain k where "coop_key_of r = Inr k" by auto
  from group_step_grouped [OF Cons.prems(1) this] obtain d1 where
    d1: "group_step d r = Inr d1" "grouped d1 (prev @ [r])" by blast
  from Cons.prems(2) have "\<forall>r\<in>set rs. \<exists>k. coop_key_of r = Inr k" by simp
  from Cons.IH [OF d1(2) this] d1(1) show ?case by simp
qed

lemma grouped_entry:
  assumes "grouped d prev" and "(k, l) \<in> set d"
  shows "l = filter (\<lambda>r. coop_key_of r = Inr k) prev \<and> l \<noteq> []"
proof -
  from assms(1) have "distinct (map fst d)" by (simp add: grouped_def)
  with assms(2) have "map_of d k = Some l" by simp
  with assms(1) have in_keys: "\<exists>r\<in>set prev. coop_key_of r = Inr k"
    and l: "l = filter (\<lambda>r. coop_key_of r = Inr k) prev"
    by (auto simp: grouped_def split: if_splits)
  from in_keys have "filter (\<lambda>r. coop_key_of r = Inr k) prev \<noteq> []"
    by (auto simp: filter_empty_conv)
  with l show ?thesis by simp
qed

lemma grouped_member:
  assumes "grouped d prev" and "r \<in> set prev" and "coop_key_of r = Inr k"
  shows "(k, filter (\<lambda>r. coop_key_of r = Inr k) prev) \<in> set d"
proof -
  from assms(2,3) have "\<exists>r\<in>set prev. coop_key_of r = Inr k" by blast
  with assms(1) have "map_of d k = Some (filter (\<lambda>r. coop_key_of r = Inr k) prev)"
    by (simp add: grouped_def)
  then show ?thesis by (rule map_of_SomeD)
qed

lemma mset_map_entry:
  "k \<in> fst ` set d \<Longrightarrow>
   mset (concat (map snd (AList.map_entry k (\<lambda>l. l @ [r]) d))) = add_mset r (mset (concat (map snd d)))"
  by (induction d) auto

lemma mset_group_step:
  assumes "group_step d r = Inr d'"
  shows "mset (concat (map snd d')) = add_mset r (mset (concat (map snd d)))"
proof -
  from assms obtain k where k: "coop_key_of r = Inr k"
    by (auto simp: group_step_def split: sum.splits)
  show ?thesis
  proof (cases "map_of d k")
    case None
    then have fresh: "k \<notin> fst ` set d" by (simp add: map_of_eq_None_iff)
    from assms k None have "d' = AList.map_entry k (\<lambda>l. l @ [r]) (d @ [(k, [])])"
      by (simp add: group_step_def update_fresh [OF fresh])
    moreover have "k \<in> fst ` set (d @ [(k, [])])" by simp
    ultimately show ?thesis by (simp add: mset_map_entry del: set_append)
  next
    case (Some l)
    then have "k \<in> fst ` set d" by (auto dest: map_of_SomeD intro: rev_image_eqI)
    moreover from assms k Some have "d' = AList.map_entry k (\<lambda>l. l @ [r]) d"
      by (simp add: group_step_def)
    ultimately show ?thesis by (simp add: mset_map_entry)
  qed
qed

lemma mset_group_loop:
  "group_loop rs d = Inr d' \<Longrightarrow> mset (concat (map snd d')) = mset (concat (map snd d)) + mset rs"
proof (induction rs arbitrary: d)
  case Nil
  then show ?case by simp
next
  case (Cons r rs)
  from Cons.prems obtain d1 where d1: "group_step d r = Inr d1" "group_loop rs d1 = Inr d'"
    by (auto split: sum.splits)
  from Cons.IH [OF d1(2)] mset_group_step [OF d1(1)] show ?case by simp
qed

subsection \<open>What \<open>save_to_json\<close> writes\<close>

lemma parsed_record_keys:
  assumes "parse_sql_insert_values s = Inr records" and "r \<in> set records"
  shows "map fst r = COLUMNS"
proof -
  from parsed_records [OF assms] obtain row where "parse_row row = Inr (Some r)" by blast
  from parse_row_Some [OF this] show ?thesis by (auto simp: length_COLUMNS)
qed

lemma cd_cooperativa_column: "''cd_cooperativa'' \<in> set COLUMNS"
  by (simp add: COLUMNS_def)

lemma coop_key_parsed:
  assumes "map fst r = COLUMNS"
  shows "\<exists>k. coop_key_of r = Inr k"
proof -
  from assms cd_cooperativa_column have "''cd_cooperativa'' \<in> fst ` set r"
    by (metis list.set_map)
  then have "map_of r ''cd_cooperativa'' \<noteq> None" by (simp add: map_of_eq_None_iff)
  then show ?thesis by (auto simp: coop_key_of_def dict_get_def)
qed

text \<open>The groups of records that all have the field \<open>cd_cooperativa\<close>.\<close>

lemma group_loop_keys:
  assumes "\<forall>r\<in>set records. \<exists>k. coop_key_of r = Inr k"
  shows "\<exists>groups. group_loop records [] = Inr groups \<and> grouped groups records \<and>
           (\<forall>g\<in>set groups. \<forall>r\<in>set (snd g). \<exists>k. coop_key_of r = Inr k) \<and>
           (\<forall>g\<in>set groups. snd g \<noteq> [])"
proof -
  have "grouped [] []" by (simp add: grouped_def)
  from group_loop_grouped [OF this assms] obtain groups where
    groups: "group_loop records [] = Inr groups" "grouped groups records" by auto
  have a: "\<forall>g\<in>set groups. \<forall>r\<in>set (snd g). \<exists>k. coop_key_of r = Inr k"
  proof (intro ballI)
    fix g r assume g: "g \<in> set groups" and r: "r \<in> set (snd g)"
    from g have "(fst g, snd g) \<in> set groups" by simp
    from grouped_entry [OF groups(2) this] r have "r \<in> set records" by auto
    with assms show "\<exists>k. coop_key_of r = Inr k" by blast
  qed
  have b: "\<forall>g\<in>set groups. snd g \<noteq> []"
  proof
    fix g assume "g \<in> set groups"
    then have "(fst g, snd g) \<in> set groups" by simp
    from grouped_entry [OF groups(2) this, THEN conjunct2] show "snd g \<noteq> []" .
  qed
  from groups a b show ?thesis by blast
qed

text \<open>The second loop when every group file can be opened.\<close>

lemma cooperativa_loop_all:
  "\<forall>g\<in>set groups. \<forall>r\<in>set (snd g). \<exists>k. coop_key_of r = Inr k \<Longrightarrow>
   \<forall>g\<in>set groups. snd g \<noteq> [] \<Longrightarrow>
   \<forall>g\<in>set groups. can_open (coop_file p (fst g)) \<Longrightarrow>
   \<exists>new. cooperativa_loop can_open groups p tr = (None, tr @ new) \<and>
         written new = map (group_document p) groups"
proof (induction groups arbitrary: tr)
  case Nil
  then show ?case by simp
next
  case (Cons g groups)
  obtain k l where g: "g = (k, l)" by (cases g)
  from Cons.prems(2) g obtain r rest where l: "l = r # rest" by (cases l) auto
  from Cons.prems(1) g l obtain key where "coop_key_of r = Inr key" by auto
  then obtain v where v: "dict_get r ''cd_cooperativa'' = Inr v"
    by (auto simp: coop_key_of_def split: sum.splits)
  then have mv: "map_of r ''cd_cooperativa'' = Some v"
    by (auto simp: dict_get_def split: option.splits)
  from Cons.prems(3) g have op: "can_open (coop_file p k)" by simp
  let ?ev = "[WriteFile (coop_file p k) (PerCooperativa v (length l) l),
              Print (CooperativaSaved (coop_file p k))]"
  from Cons.prems have "\<forall>g\<in>set groups. \<forall>r\<in>set (snd g). \<exists>k. coop_key_of r = Inr k"
    and "\<forall>g\<in>set groups. snd g \<noteq> []"
    and "\<forall>g\<in>set groups. can_open (coop_file p (fst g))" by simp_all
  from Cons.IH [OF this, of "tr @ ?ev"] obtain new where
    new: "cooperativa_loop can_open groups p (tr @ ?ev) = (None, (tr @ ?ev) @ new)"
    "written new = map (group_document p) groups" by blast
  have "cooperativa_loop can_open (g # groups) p tr = (None, tr @ (?ev @ new))"
    using new(1) by (simp add: g l v op)
  moreover have "written (?ev @ new) = map (group_document p) (g # groups)"
    using new(2) by (simp add: g l mv group_document_def)
  ultimately show ?case by blast
qed

text \<open>
  The second loop in any environment: it writes the documents of the groups in their order,
  up to the first group whose file cannot be opened.
\<close>

lemma cooperativa_loop_prefix:
  "\<forall>g\<in>set groups. \<forall>r\<in>set (snd g). \<exists>k. coop_key_of r = Inr k \<Longrightarrow>
   \<forall>g\<in>set groups. snd g \<noteq> [] \<Longrightarrow>
   \<exists>e new n. cooperativa_loop can_open groups p tr = (e, tr @ new) \<and>
         written new = map (group_document p) (take n groups)"
proof (induction groups arbitrary: tr)
  case Nil
  have "cooperativa_loop can_open [] p tr = (None, tr @ []) \<and>
        written [] = map (group_document p) (take 0 [])" by simp
  then show ?case by blast
next
  case (Cons g groups)
  obtain k l where g: "g = (k, l)" by (cases g)
  show ?case
  proof (cases "can_open (coop_file p k)")
    case False
    then have "cooperativa_loop can_open (g # groups) p tr = (Some OSError, tr @ []) \<and>
        written [] = map (group_document p) (take 0 (g # groups))" by (simp add: g)
    then show ?thesis by blast
  next
    case True
    from Cons.prems(2) g obtain r rest where l: "l = r # rest" by (cases l) auto
    from Cons.prems(1) g l obtain key where "coop_key_of r = Inr key" by auto
    then obtain v where v: "dict_get r ''cd_cooperativa'' = Inr v"
      by (auto simp: coop_key_of_def split: sum.splits)
    then have mv: "map_of r ''cd_cooperativa'' = Some v"
      by (auto simp: dict_get_def split: option.splits)
    let ?ev = "[WriteFile (coop_file p k) (PerCooperativa v (length l) l),
                Print (CooperativaSaved (coop_file p k))]"
    from Cons.prems have "\<forall>g\<in>set groups. \<forall>r\<in>set (snd g). \<exists>k. coop_key_of r = Inr k"
      and "\<forall>g\<in>set groups. snd g \<noteq> []" by simp_all
    from Cons.IH [OF this, of "tr @ ?ev"] obtain e new n where
      new: "cooperativa_loop can_open groups p (tr @ ?ev) = (e, (tr @ ?ev) @ new)"
      "written new = map (group_document p) (take n groups)" by blast
    have "cooperativa_loop can_open (g # groups) p tr = (e, tr @ (?ev @ new))"
      using new(1) by (simp add: g l v True)
    moreover have "written (?ev @ new) = map (group_document p) (take (Suc n) (g # groups))"
      using new(2) by (simp add: g l mv group_document_def)
    ultimately show ?thesis by blast
  qed
qed

lemma save_to_json_all:
  assumes "group_loop records [] = Inr groups"
    and "\<forall>g\<in>set groups. \<forall>r\<in>set (snd g). \<exists>k. coop_key_of r = Inr k"
    and "\<forall>g\<in>set groups. snd g \<noteq> []"
    and "can_open p" and "\<forall>g\<in>set groups. can_open (coop_file p (fst g))"
  shows "\<exists>new. save_to_json can_open records p tr = (None, tr @ new) \<and>
           written new =
             (p, Consolidated (length records) (length groups) ''grc-web.sql'' ''2025-10-23'' records)
             # map (group_document p) groups"
proof -
  let ?ev = "[WriteFile p (Consolidated (length records) (length groups) ''grc-web.sql'' ''2025-10-23'' records),
              Print (JsonSaved p)]"
  from cooperativa_loop_all [OF assms(2,3,5), of "tr @ ?ev"] obtain new where
    new: "cooperativa_loop can_open groups p (tr @ ?ev) = (None, (tr @ ?ev) @ new)"
    "written new = map (group_document p) groups" by blast
  have "save_to_json can_open records p tr = (None, tr @ (?ev @ new))"
    using new(1) by (simp add: save_to_json_def assms(1,4))
  moreover have "written (?ev @ new) =
      (p, Consolidated (length records) (length groups) ''grc-web.sql'' ''2025-10-23'' records)
      # map (group_document p) groups"
    using new(2) by simp
  ultimately show ?thesis by blast
qed

lemma save_to_json_prefix:
  assumes "group_loop records [] = Inr groups"
    and "\<forall>g\<in>set groups. \<forall>r\<in>set (snd g). \<exists>k. coop_key_of r = Inr k"
    and "\<forall>g\<in>set groups. snd g \<noteq> []"
  shows "\<exists>e new. save_to_json can_open records p tr = (e, tr @ new) \<and>
           (written new = [] \<or>
            (\<exists>n. written new =
               (p, Consolidated (length records) (length groups) ''grc-web.sql'' ''2025-10-23'' records)
               # map (group_document p) (take n groups)))"
proof (cases "can_open p")
  case False
  then have "save_to_json can_open records p tr = (Some OSError, tr @ [])"
    by (simp add: save_to_json_def assms(1))
  moreover have "written [] = []" by simp
  ultimately show ?thesis by blast
next
  case True
  let ?ev = "[WriteFile p (Consolidated (length records) (length groups) ''grc-web.sql'' ''2025-10-23'' records),
              Print (JsonSaved p)]"
  from cooperativa_loop_prefix [OF assms(2,3), of can_open p "tr @ ?ev"] obtain e new n where
    new: "cooperativa_loop can_open groups p (tr @ ?ev) = (e, (tr @ ?ev) @ new)"
    "written new = map (group_document p) (take n groups)" by blast
  have "save_to_json can_open records p tr = (e, tr @ (?ev @ new))"
    using new(1) by (simp add: save_to_json_def assms(1) True)
  moreover have "written (?ev @ new) =
      (p, Consolidated (length records) (length groups) ''grc-web.sql'' ''2025-10-23'' records)
      # map (group_document p) (take n groups)"
    using new(2) by simp
  ultimately show ?thesis by blast
qed

lemma group_files_documents:
  "filter (\<lambda>(p, c). is_PerCooperativa c) (map (group_document p) groups) = map (group_document p) groups"
  by (induction groups) (simp_all add: group_document_def)

lemma consolidated_documents:
  "filter is_Consolidated (map snd (map (group_document p) groups)) = []"
  by (induction groups) (simp_all add: group_document_def)

lemma csv_documents:
  "filter is_Csv (map snd (map (group_document p) groups)) = []"
  by (induction groups) (simp_all add: group_document_def)

lemma group_counts:
  "sum_list (map (total_registros \<circ> snd) (map (group_document p) groups)) =
     length (concat (map snd groups))"
  by (induction groups) (simp_all add: group_document_def)

lemma coop_file_inj: "coop_file p k = coop_file p k' \<Longrightarrow> k = k'"
  by (simp add: coop_file_def)

lemma coop_key_a: "coop_key_of record_a = Inr ''cooperativa_3''"
  by code_simp

lemma coop_key_b: "coop_key_of record_b = Inr ''cooperativa_4''"
  by code_simp

lemma cd_cooperativa_a: "dict_get record_a ''cd_cooperativa'' = Inr (PyInt 3)"
  by code_simp

lemma cd_cooperativa_b: "dict_get record_b ''cd_cooperativa'' = Inr (PyInt 4)"
  by code_simp

lemma sample_groups:
  "group_loop [record_a, record_b, record_a] [] =
     Inr [(''cooperativa_3'', [record_a, record_a]), (''cooperativa_4'', [record_b])]"
  by (simp add: group_step_def coop_key_a coop_key_b)

lemma sample_save_to_json:
  "save_to_json all_paths [record_a, record_b, record_a] p tr =
     (None,
      tr @
      [WriteFile p (Consolidated 3 2 ''grc-web.sql'' ''2025-10-23'' [record_a, record_b, record_a]),
       Print (JsonSaved p),
       WriteFile (coop_file p ''cooperativa_3'') (PerCooperativa (PyInt 3) 2 [record_a, record_a]),
       Print (CooperativaSaved (coop_file p ''cooperativa_3'')),
       WriteFile (coop_file p ''cooperativa_4'') (PerCooperativa (PyInt 4) 1 [record_b]),
       Print (CooperativaSaved (coop_file p ''cooperativa_4''))])"
  apply (simp only: save_to_json_def sample_groups sum.case)
  apply (simp add: cd_cooperativa_a cd_cooperativa_b all_paths_def)
  done

lemma no_balances_output_dir: "no_balances (output_dir @ [name])"
  by (simp add: no_balances_def)

lemma no_balances_group: "\<not> no_balances (coop_file (output_dir @ [name]) k)"
  by (simp add: no_balances_def coop_file_def butlast_append)

lemma sample_save_no_balances:
  "save_to_json no_balances [record_a, record_b, record_a] json_path tr =
     (Some OSError,
      tr @
      [WriteFile json_path
         (Consolidated 3 2 ''grc-web.sql'' ''2025-10-23'' [record_a, record_b, record_a]),
       Print (JsonSaved json_path)])"
  apply (simp only: save_to_json_def sample_groups sum.case json_path_def)
  apply (simp add: no_balances_output_dir no_balances_group)
  done

text \<open>
  C7. For the records of any text, the grouping loop of \<open>save_to_json\<close> raises nothing;
  its groups have distinct keys, each group is not empty and holds the records of its key
  (those whose \<open>cd_cooperativa\<close> gives that key), each record is in exactly one group,
  and the lists of all groups together hold the records, each as often as the parser
  returned it. The group files that \<open>save_to_json\<close> then writes are the documents of the
  groups, in their order, up to the first file that cannot be opened: all of them, with
  no exception, when the consolidated file and every group file can be opened.
\<close>

theorem grouping_partitions:
  assumes "parse_sql_insert_values s = Inr records"
  shows "\<exists>groups. group_loop records [] = Inr groups \<and>
           distinct (map fst groups) \<and>
           (\<forall>g\<in>set groups.
              snd g \<noteq> [] \<and> snd g = filter (\<lambda>r. coop_key_of r = Inr (fst g)) records) \<and>
           (\<forall>r\<in>set records. \<exists>!g. g \<in> set groups \<and> r \<in> set (snd g)) \<and>
           mset (concat (map snd groups)) = mset records \<and>
           (\<exists>e new n. save_to_json can_open records output_path tr = (e, tr @ new) \<and>
              group_files new = map (group_document output_path) (take n groups) \<and>
              (can_open output_path \<and> (\<forall>g\<in>set groups. can_open (coop_file output_path (fst g)))
                 \<longrightarrow> e = None \<and> group_files new = map (group_document output_path) groups))"
proof -
  have keys: "\<forall>r\<in>set records. \<exists>k. coop_key_of r = Inr k"
    using parsed_record_keys [OF assms] coop_key_parsed by blast
  from group_loop_keys [OF keys] obtain groups where
    gl: "group_loop records [] = Inr groups" and gr: "grouped groups records"
    and a: "\<forall>g\<in>set groups. \<forall>r\<in>set (snd g). \<exists>k. coop_key_of r = Inr k"
    and b: "\<forall>g\<in>set groups. snd g \<noteq> []"
    by blast
  have dk: "distinct (map fst groups)" using gr by (simp add: grouped_def)
  have entry: "snd g \<noteq> [] \<and> snd g = filter (\<lambda>r. coop_key_of r = Inr (fst g)) records"
    if "g \<in> set groups" for g
  proof -
    from that have "(fst g, snd g) \<in> set groups" by simp
    from grouped_entry [OF gr this] show ?thesis by blast
  qed
  have m: "mset (concat (map snd groups)) = mset records"
    using mset_group_loop [OF gl] by simp
  have u: "\<exists>!g. g \<in> set groups \<and> r \<in> set (snd g)" if r: "r \<in> set records" for r
  proof -
    from keys r obtain k where k: "coop_key_of r = Inr k" by blast
    let ?l = "filter (\<lambda>r. coop_key_of r = Inr k) records"
    from grouped_member [OF gr r k] have mem: "(k, ?l) \<in> set groups" .
    show ?thesis
    proof (rule ex1I [of _ "(k, ?l)"])
      show "(k, ?l) \<in> set groups \<and> r \<in> set (snd (k, ?l))"
        using mem r k by simp
    next
      fix g assume g: "g \<in> set groups \<and> r \<in> set (snd g)"
      with entry [of g] have l: "snd g = filter (\<lambda>r. coop_key_of r = Inr (fst g)) records"
        by simp
      from g have "r \<in> set (snd g)" by simp
      with l have "coop_key_of r = Inr (fst g)"
        by (metis (mono_tags, lifting) mem_Collect_eq set_filter)
      with k have "fst g = k" by simp
      with l show "g = (k, ?l)" by (simp add: prod_eq_iff)
    qed
  qed
  have files: "\<exists>e new n. save_to_json can_open records output_path tr = (e, tr @ new) \<and>
      group_files new = map (group_document output_path) (take n groups) \<and>
      (can_open output_path \<and> (\<forall>g\<in>set groups. can_open (coop_file output_path (fst g)))
         \<longrightarrow> e = None \<and> group_files new = map (group_document output_path) groups)"
  proof (cases "can_open output_path \<and> (\<forall>g\<in>set groups. can_open (coop_file output_path (fst g)))")
    case True
    then have o1: "can_open output_path"
      and o2: "\<forall>g\<in>set groups. can_open (coop_file output_path (fst g))" by simp_all
    from save_to_json_all [OF gl a b o1 o2, of tr] obtain new where
      new: "save_to_json can_open records output_path tr = (None, tr @ new)"
      and w: "written new =
        (output_path, Consolidated (length records) (length groups) ''grc-web.sql'' ''2025-10-23'' records)
        # map (group_document output_path) groups" by blast
    have gf: "group_files new = map (group_document output_path) groups"
      by (simp add: group_files_def w group_files_documents)
    then have "group_files new = map (group_document output_path) (take (length groups) groups)"
      by simp
    with new gf show ?thesis by blast
  next
    case False
    from save_to_json_prefix [OF gl a b, of can_open output_path tr] obtain e new where
      new: "save_to_json can_open records output_path tr = (e, tr @ new)"
      and w: "written new = [] \<or>
        (\<exists>n. written new =
           (output_path, Consolidated (length records) (length groups) ''grc-web.sql'' ''2025-10-23'' records)
           # map (group_document output_path) (take n groups))" by blast
    from w have "\<exists>n. group_files new = map (group_document output_path) (take n groups)"
    proof
      assume "written new = []"
      then have "group_files new = map (group_document output_path) (take 0 groups)"
        by (simp add: group_files_def)
      then show ?thesis ..
    next
      assume "\<exists>n. written new =
           (output_path, Consolidated (length records) (length groups) ''grc-web.sql'' ''2025-10-23'' records)
           # map (group_document output_path) (take n groups)"
      then obtain n where "written new =
           (output_path, Consolidated (length records) (length groups) ''grc-web.sql'' ''2025-10-23'' records)
           # map (group_document output_path) (take n groups)" ..
      then have "group_files new = map (group_document output_path) (take n groups)"
        by (simp add: group_files_def group_files_documents)
      then show ?thesis ..
    qed
    with new False show ?thesis by blast
  qed
  have "group_loop records [] = Inr groups \<and>
           distinct (map fst groups) \<and>
           (\<forall>g\<in>set groups.
              snd g \<noteq> [] \<and> snd g = filter (\<lambda>r. coop_key_of r = Inr (fst g)) records) \<and>
           (\<forall>r\<in>set records. \<exists>!g. g \<in> set groups \<and> r \<in> set (snd g)) \<and>
           mset (concat (map snd groups)) = mset records \<and>
           (\<exists>e new n. save_to_json can_open records output_path tr = (e, tr @ new) \<and>
              group_files new = map (group_document output_path) (take n groups) \<and>
              (can_open output_path \<and> (\<forall>g\<in>set groups. can_open (coop_file output_path (fst g)))
                 \<longrightarrow> e = None \<and> group_files new = map (group_document output_path) groups))"
    using gl dk entry u m files by (intro conjI ballI) auto
  then show ?thesis ..
qed

theorem grouping_partitions_witness:
  "parse_sql_insert_values sample_sql = Inr [record_a, record_b, record_a] \<and>
   group_loop [record_a, record_b, record_a] [] =
     Inr [(''cooperativa_3'', [record_a, record_a]), (''cooperativa_4'', [record_b])] \<and>
   group_files (snd (save_to_json all_paths [record_a, record_b, record_a] json_path [])) =
     [(output_dir @ [''balances'', ''cooperativa_3.json''],
       PerCooperativa (PyInt 3) 2 [record_a, record_a]),
      (output_dir @ [''balances'', ''cooperativa_4.json''],
       PerCooperativa (PyInt 4) 1 [record_b])] \<and>
   group_files (snd (save_to_json no_balances [record_a, record_b, record_a] json_path [])) = []"
proof -
  note t = grouping_partitions [OF parse_sample, of all_paths json_path "[]"]
  from t obtain groups where "group_loop [record_a, record_b, record_a] [] = Inr groups"
    by blast
  then have c2: "group_loop [record_a, record_b, record_a] [] =
     Inr [(''cooperativa_3'', [record_a, record_a]), (''cooperativa_4'', [record_b])]"
    by (simp only: sample_groups)
  have c3: "group_files (snd (save_to_json all_paths [record_a, record_b, record_a] json_path [])) =
     [(output_dir @ [''balances'', ''cooperativa_3.json''],
       PerCooperativa (PyInt 3) 2 [record_a, record_a]),
      (output_dir @ [''balances'', ''cooperativa_4.json''],
       PerCooperativa (PyInt 4) 1 [record_b])]"
    by (simp add: sample_save_to_json [of _ "[]", simplified] group_files_def coop_file_def json_path_def)
  have c4: "group_files (snd (save_to_json no_balances [record_a, record_b, record_a] json_path [])) = []"
    by (simp add: sample_save_no_balances [of "[]", simplified] group_files_def)
  show ?thesis by (intro conjI parse_sample c2 c3 c4)
qed

subsection \<open>What \<open>save_to_csv\<close> writes, and the counts\<close>

lemma dict_to_list_parsed:
  "map fst r = COLUMNS \<Longrightarrow> dict_to_list COLUMNS r = Inr (csv_row r)"
  by (simp add: dict_to_list_def csv_row_def)

lemma writerows_parsed:
  "\<forall>r\<in>set rs. map fst r = COLUMNS \<Longrightarrow>
   writerows COLUMNS rs acc = (None, acc @ map csv_row rs)"
  by (induction rs arbitrary: acc) (simp_all add: dict_to_list_parsed)

lemma save_to_csv_parsed:
  assumes "\<forall>r\<in>set records. map fst r = COLUMNS" and "records \<noteq> []" and "can_open p"
  shows "save_to_csv can_open records p tr =
           (None, tr @ [WriteFile p (Csv COLUMNS (map csv_row records)), Print (CsvSaved p)])"
  using assms by (simp add: save_to_csv_def writerows_parsed)

lemma save_to_csv_closed:
  assumes "records \<noteq> []" and "\<not> can_open p"
  shows "save_to_csv can_open records p tr = (Some OSError, tr)"
  using assms by (simp add: save_to_csv_def)

lemma sample_columns: "\<forall>r\<in>set [record_a, record_b, record_a]. map fst r = COLUMNS"
  by (simp add: record_a_def record_b_def values_a_def values_b_def length_COLUMNS)

lemma sample_save_to_csv:
  "save_to_csv all_paths [record_a, record_b, record_a] p tr =
     (None, tr @ [WriteFile p (Csv COLUMNS [csv_row record_a, csv_row record_b, csv_row record_a]),
                  Print (CsvSaved p)])"
proof -
  have ne: "[record_a, record_b, record_a] \<noteq> []" by simp
  have op: "all_paths p" by (simp add: all_paths_def)
  from save_to_csv_parsed [where can_open = all_paths and p = p, OF sample_columns ne op]
  show ?thesis by simp
qed

text \<open>The run of \<open>main\<close> on the sample statement when the directory \<open>balances\<close> is missing.\<close>

lemma length_sample_sql: "length sample_sql = 456"
  by code_simp

lemma ano_a: "dict_get record_a ''ano'' = Inr (PyInt 2020)"
  by code_simp

lemma ano_b: "dict_get record_b ''ano'' = Inr (PyInt 2021)"
  by code_simp

lemma sample_export:
  "export no_balances [record_a, record_b, record_a] tr =
     (Some OSError,
      tr @
      [Print StatsTitle, Print (StatsCooperativas 2 (PyInt 3) (PyInt 4)),
       Print (StatsPeriodo (PyInt 2020) (PyInt 2021)), Print (StatsTotal 3), Print Saving,
       WriteFile json_path
         (Consolidated 3 2 ''grc-web.sql'' ''2025-10-23'' [record_a, record_b, record_a]),
       Print (JsonSaved json_path)])"
proof -
  have c: "column ''cd_cooperativa'' [record_a, record_b, record_a] = Inr [PyInt 3, PyInt 4, PyInt 3]"
    by (simp add: cd_cooperativa_a cd_cooperativa_b)
  have a: "column ''ano'' [record_a, record_b, record_a] = Inr [PyInt 2020, PyInt 2021, PyInt 2020]"
    by (simp add: ano_a ano_b)
  have m: "py_min [PyInt 3, PyInt 4, PyInt 3] = Inr (PyInt 3)"
    "py_max [PyInt 3, PyInt 4, PyInt 3] = Inr (PyInt 4)"
    "py_min [PyInt 2020, PyInt 2021, PyInt 2020] = Inr (PyInt 2020)"
    "py_max [PyInt 2020, PyInt 2021, PyInt 2020] = Inr (PyInt 2021)"
    by (simp_all add: py_min_def py_max_def py_less_def)
  show ?thesis
    unfolding export_def c a
    by (simp add: m sample_save_no_balances [unfolded json_path_def] json_path_def)
qed

lemma sample_main:
  "main no_balances (Some sample_sql) =
     (Some OSError,
      [Print Banner, Print Title, Print Banner, Print Reading, ReadFile sql_file,
       Print (FileRead 456), Print Extracting, Print (Extracted 3),
       Print StatsTitle, Print (StatsCooperativas 2 (PyInt 3) (PyInt 4)),
       Print (StatsPeriodo (PyInt 2020) (PyInt 2021)), Print (StatsTotal 3), Print Saving,
       WriteFile json_path
         (Consolidated 3 2 ''grc-web.sql'' ''2025-10-23'' [record_a, record_b, record_a]),
       Print (JsonSaved json_path)])"
  by (simp add: main_def parse_sample length_sample_sql sample_export)

text \<open>
  C8 (as amended). For the records of any text, when there is at least one and the
  consolidated file, the file of every group and the CSV file can be opened for writing,
  \<open>save_to_json\<close> followed by \<open>save_to_csv\<close> raises nothing, and in what the two wrote
  the count \<open>total_records\<close> of the consolidated document, the number of rows of the CSV
  file (its header is apart) and the sum of the counts \<open>total_registros\<close> of the group
  files are all the number of records.
\<close>

theorem counts_agree:
  assumes "parse_sql_insert_values s = Inr records" and "records \<noteq> []"
    and "can_open json_file"
    and "\<forall>r\<in>set records. \<forall>k. coop_key_of r = Inr k \<longrightarrow> can_open (coop_file json_file k)"
    and "can_open csv_file"
  shows "\<exists>tr1 new. save_to_json can_open records json_file tr = (None, tr1) \<and>
           save_to_csv can_open records csv_file tr1 = (None, tr @ new) \<and>
           map total_records (consolidated_files new) = [length records] \<and>
           map (length \<circ> csv_rows) (csv_files new) = [length records] \<and>
           sum_list (map (total_registros \<circ> snd) (group_files new)) = length records"
proof -
  have cols: "\<forall>r\<in>set records. map fst r = COLUMNS"
    using parsed_record_keys [OF assms(1)] by blast
  then have keys: "\<forall>r\<in>set records. \<exists>k. coop_key_of r = Inr k"
    using coop_key_parsed by blast
  from group_loop_keys [OF keys] obtain groups where
    gl: "group_loop records [] = Inr groups" and gr: "grouped groups records"
    and a: "\<forall>g\<in>set groups. \<forall>r\<in>set (snd g). \<exists>k. coop_key_of r = Inr k"
    and b: "\<forall>g\<in>set groups. snd g \<noteq> []"
    by blast
  have o: "\<forall>g\<in>set groups. can_open (coop_file json_file (fst g))"
  proof
    fix g assume "g \<in> set groups"
    then have "(fst g, snd g) \<in> set groups" by simp
    from grouped_entry [OF gr this]
    have l: "snd g = filter (\<lambda>r. coop_key_of r = Inr (fst g)) records" and ne: "snd g \<noteq> []"
      by blast+
    from ne obtain r where "r \<in> set (snd g)" by (cases "snd g") auto
    with l have "r \<in> set records" "coop_key_of r = Inr (fst g)"
      by (metis (mono_tags, lifting) mem_Collect_eq set_filter)+
    with assms(4) show "can_open (coop_file json_file (fst g))" by blast
  qed
  from save_to_json_all [OF gl a b assms(3) o, of tr] obtain new1 where
    j: "save_to_json can_open records json_file tr = (None, tr @ new1)"
    and w: "written new1 =
      (json_file, Consolidated (length records) (length groups) ''grc-web.sql'' ''2025-10-23'' records)
      # map (group_document json_file) groups"
    by blast
  let ?new2 = "[WriteFile csv_file (Csv COLUMNS (map csv_row records)), Print (CsvSaved csv_file)]"
  have c: "save_to_csv can_open records csv_file (tr @ new1) = (None, tr @ (new1 @ ?new2))"
    using save_to_csv_parsed [where can_open = can_open and p = csv_file, OF cols assms(2,5)]
    by simp
  have ww: "written (new1 @ ?new2) =
      (json_file, Consolidated (length records) (length groups) ''grc-web.sql'' ''2025-10-23'' records)
      # map (group_document json_file) groups @ [(csv_file, Csv COLUMNS (map csv_row records))]"
    by (simp add: written_append w)
  have "size (mset (concat (map snd groups))) = size (mset records)"
    using mset_group_loop [OF gl] by simp
  then have "length (concat (map snd groups)) = length records"
    by (simp only: size_mset)
  then have g: "sum_list (map (total_registros \<circ> snd) (group_files (new1 @ ?new2))) = length records"
    by (simp add: group_files_def ww group_files_documents group_counts del: map_map)
  have t: "map total_records (consolidated_files (new1 @ ?new2)) = [length records]"
    by (simp add: consolidated_files_def ww consolidated_documents del: map_map)
  have r: "map (length \<circ> csv_rows) (csv_files (new1 @ ?new2)) = [length records]"
    by (simp add: csv_files_def ww csv_documents del: map_map)
  show ?thesis
    by (rule exI [of _ "tr @ new1"], rule exI [of _ "new1 @ ?new2"]) (intro conjI j c t r g)
qed

theorem counts_agree_witness:
  "parse_sql_insert_values sample_sql = Inr [record_a, record_b, record_a] \<and>
   map total_records (consolidated_files
     (snd (save_to_json all_paths [record_a, record_b, record_a] json_path []))) = [3] \<and>
   sum_list (map (total_registros \<circ> snd) (group_files
     (snd (save_to_json all_paths [record_a, record_b, record_a] json_path [])))) = 3 \<and>
   map (length \<circ> csv_rows) (csv_files
     (snd (save_to_csv all_paths [record_a, record_b, record_a] csv_path []))) = [3]"
proof -
  have ne: "[record_a, record_b, record_a] \<noteq> []" by simp
  have o1: "all_paths json_path" and o3: "all_paths csv_path" by (simp_all add: all_paths_def)
  have o2: "\<forall>r\<in>set [record_a, record_b, record_a]. \<forall>k. coop_key_of r = Inr k \<longrightarrow>
      all_paths (coop_file json_path k)" by (simp add: all_paths_def)
  note t = counts_agree [OF parse_sample ne o1 o2 o3, of "[]"]
  have c2: "map total_records (consolidated_files
     (snd (save_to_json all_paths [record_a, record_b, record_a] json_path []))) = [3]"
    by (simp add: sample_save_to_json [of _ "[]", simplified] consolidated_files_def)
  have c3: "sum_list (map (total_registros \<circ> snd) (group_files
     (snd (save_to_json all_paths [record_a, record_b, record_a] json_path [])))) = 3"
    by (simp add: sample_save_to_json [of _ "[]", simplified] group_files_def)
  have c4: "map (length \<circ> csv_rows) (csv_files
     (snd (save_to_csv all_paths [record_a, record_b, record_a] csv_path []))) = [3]"
    by (simp add: sample_save_to_csv [of _ "[]", simplified] csv_files_def)
  from t show ?thesis by (intro conjI parse_sample c2 c3 c4)
qed

text \<open>
  The claim as stated fails where the subdirectory \<open>balances\<close> does not exist (the
  script creates no directory): on the three records of \<open>sample_sql\<close>, \<open>save_to_json\<close>
  writes the consolidated document with \<open>total_records\<close> 3 and raises at the first group
  file, so the counts of the group files sum to 0; \<open>main\<close> ends there, and no CSV file is
  written.
\<close>

theorem missing_directory_counts_differ:
  "parse_sql_insert_values sample_sql = Inr [record_a, record_b, record_a] \<and>
   save_to_json no_balances [record_a, record_b, record_a] json_path [] =
     (Some OSError,
      [WriteFile json_path
         (Consolidated 3 2 ''grc-web.sql'' ''2025-10-23'' [record_a, record_b, record_a]),
       Print (JsonSaved json_path)]) \<and>
   fst (main no_balances (Some sample_sql)) = Some OSError \<and>
   map total_records (consolidated_files (snd (main no_balances (Some sample_sql)))) = [3] \<and>
   sum_list (map (total_registros \<circ> snd)
     (group_files (snd (main no_balances (Some sample_sql))))) = 0 \<and>
   csv_files (snd (main no_balances (Some sample_sql))) = []"
  by (simp add: parse_sample sample_save_no_balances [of "[]", simplified] sample_main
      consolidated_files_def group_files_def csv_files_def)

section \<open>Properties of \<open>main\<close>\<close>

lemma parse_short_sql: "parse_sql_insert_values short_sql = Inr []"
proof -
  have f: "findall short_sql = [''1,2'']" by code_simp
  have r: "re_split ''1,2'' = [''1,2'']" by code_simp
  show ?thesis
    by (simp only: parse_rows_loop all_rows_def f r list.map concat.simps append_Nil2)
       (simp add: parse_row_short)
qed

lemma length_short_sql: "length short_sql = 53"
  by code_simp

text \<open>
  C9. When the SQL file does not exist, \<open>main\<close> prints its banner and the message that the
  file was not found, and ends: it reads nothing and writes nothing. When the parser
  returns no record, \<open>main\<close> prints the warning that none was found and writes nothing.
  \<open>save_to_csv\<close> itself writes nothing for an empty list. This holds whatever files can
  be opened.
\<close>

theorem no_input_no_output:
  assumes "parse_sql_insert_values sql_content = Inr []"
  shows "main can_open None =
           (None, [Print Banner, Print Title, Print Banner, Print (FileNotFound sql_file)]) \<and>
         main can_open (Some sql_content) =
           (None, [Print Banner, Print Title, Print Banner, Print Reading, ReadFile sql_file,
                   Print (FileRead (length sql_content)), Print Extracting, Print (Extracted 0),
                   Print NoRecordsFound, Print Banner]) \<and>
         written (snd (main can_open None)) = [] \<and>
         written (snd (main can_open (Some sql_content))) = [] \<and>
         save_to_csv can_open [] output_path tr = (None, tr @ [Print NothingToSave])"
  using assms by (simp add: main_def save_to_csv_def)

theorem no_input_no_output_witness:
  "parse_sql_insert_values short_sql = Inr [] \<and>
   main all_paths (Some short_sql) =
     (None, [Print Banner, Print Title, Print Banner, Print Reading, ReadFile sql_file,
             Print (FileRead 53), Print Extracting, Print (Extracted 0),
             Print NoRecordsFound, Print Banner]) \<and>
   written (snd (main all_paths (Some short_sql))) = []"
  using no_input_no_output [OF parse_short_sql, of all_paths] parse_short_sql
  by (simp add: length_short_sql)

section \<open>Order\<close>

subsection \<open>The tuples lie in the text in the order of \<open>all_rows\<close>\<close>

lemma interleave_prefix:
  "x @ interleave (g # gaps) rows = interleave ((x @ g) # gaps) rows"
  by (cases rows) simp_all

lemma interleave_join:
  "length gs = length rs1 \<Longrightarrow>
   interleave (gs @ [gl]) rs1 @ interleave (g # gs2) rs2 =
     interleave (gs @ (gl @ g) # gs2) (rs1 @ rs2)"
proof (induction rs1 arbitrary: gs)
  case Nil
  then show ?case by (simp add: interleave_prefix)
next
  case (Cons r rs1)
  then obtain h gs' where gs: "gs = h # gs'" and len: "length gs' = length rs1"
    by (cases gs) auto
  from Cons.IH [OF len] show ?case by (simp add: gs)
qed

lemma split_from_interleave:
  "\<exists>gaps. length gaps = Suc (length (split_from piece s)) \<and>
          interleave gaps (split_from piece s) = piece @ s"
proof (induction piece s rule: split_from.induct)
  case (1 piece s)
  show ?case
  proof (cases "row_separator s")
    case (Some rest)
    from row_separator_Some [OF this] obtain a where s: "s = ''),'' @ a @ ''('' @ rest"
      by blast
    from 1(2) [OF Some] obtain gaps where
      gaps: "length gaps = Suc (length (split_from [] rest))"
      "interleave gaps (split_from [] rest) = rest" by auto
    then obtain g gs where g: "gaps = g # gs" by (cases gaps) auto
    let ?gaps = "[] # (''),'' @ a @ ''('' @ g) # gs"
    have sp: "split_from piece s = piece # split_from [] rest"
      by (subst split_from.simps) (simp add: Some)
    have "interleave ?gaps (split_from piece s) =
            piece @ (''),'' @ a @ ''('') @ interleave (g # gs) (split_from [] rest)"
      unfolding sp
      using interleave_prefix [of "''),'' @ a @ ''(''" g gs "split_from [] rest"] by simp
    also have "\<dots> = piece @ s" using gaps(2) by (simp add: g s)
    finally have "interleave ?gaps (split_from piece s) = piece @ s" .
    moreover have "length ?gaps = Suc (length (split_from piece s))"
      using gaps(1) by (simp add: sp g)
    ultimately show ?thesis by blast
  next
    case None
    show ?thesis
    proof (cases s)
      case Nil
      have "split_from piece s = [piece]"
        using None by (subst split_from.simps) (simp add: Nil)
      then have "length [[], []] = Suc (length (split_from piece s)) \<and>
                 interleave [[], []] (split_from piece s) = piece @ s"
        by (simp add: Nil)
      then show ?thesis by blast
    next
      case (Cons c cs)
      have "split_from piece s = split_from (piece @ [c]) cs"
        using None by (subst split_from.simps) (simp add: Cons)
      with 1(1) [OF None Cons] show ?thesis by (simp add: Cons)
    qed
  qed
qed

lemma all_rows_unfold:
  "all_rows s =
     (case insert_pattern s of
        Some (g, rest) \<Rightarrow> re_split g @ all_rows rest
      | None \<Rightarrow> (case s of [] \<Rightarrow> [] | c # cs \<Rightarrow> all_rows cs))"
  unfolding all_rows_def by (subst findall.simps) (simp split: option.splits list.splits)

lemma all_rows_interleave:
  "\<exists>gaps. length gaps = Suc (length (all_rows s)) \<and> interleave gaps (all_rows s) = s"
proof (induction s rule: findall.induct)
  case (1 s)
  show ?case
  proof (cases "insert_pattern s")
    case (Some m)
    obtain g rest where m: "m = (g, rest)" by (cases m)
    with Some have ip: "insert_pattern s = Some (g, rest)" by simp
    from insert_pattern_Some [OF ip] obtain a where s: "s = a @ ''('' @ g @ '');'' @ rest"
      by blast
    from 1(2) [OF Some m [symmetric]] obtain gaps where
      gaps: "length gaps = Suc (length (all_rows rest))" "interleave gaps (all_rows rest) = rest"
      by auto
    then obtain h hs where h: "gaps = h # hs" by (cases gaps) auto
    from split_from_interleave [of "[]" g] obtain inner where
      inner: "length inner = Suc (length (re_split g))" "interleave inner (re_split g) = g"
      by (auto simp: re_split_def)
    then obtain i0 js where i0: "inner = i0 # js" by (cases inner) auto
    have rows: "all_rows s = re_split g @ all_rows rest"
      by (subst all_rows_unfold) (simp add: ip)
    let ?inner' = "(a @ ''('' @ i0) # js"
    have len': "length ?inner' = Suc (length (re_split g))" using inner(1) by (simp add: i0)
    obtain front lst where fl: "?inner' = front @ [lst]"
      by (cases ?inner' rule: rev_cases) simp_all
    from len' have "length (front @ [lst]) = Suc (length (re_split g))" by (simp only: fl)
    then have lf: "length front = length (re_split g)" by simp
    have "interleave ?inner' (re_split g) = a @ ''('' @ g"
      using inner(2) interleave_prefix [of "a @ ''(''" i0 js "re_split g"] by (simp add: i0)
    then have i1: "interleave (front @ [lst]) (re_split g) = a @ ''('' @ g"
      by (simp only: fl)
    have i2: "interleave (('');'' @ h) # hs) (all_rows rest) = '');'' @ rest"
      using gaps(2) interleave_prefix [of "'');''" h hs "all_rows rest"] by (simp add: h)
    have "s = interleave (front @ [lst]) (re_split g) @ interleave (('');'' @ h) # hs) (all_rows rest)"
      unfolding i1 i2 by (simp add: s)
    also have "\<dots> = interleave (front @ (lst @ '');'' @ h) # hs) (re_split g @ all_rows rest)"
      by (rule interleave_join [OF lf])
    finally have e: "s = interleave (front @ (lst @ '');'' @ h) # hs) (re_split g @ all_rows rest)" .
    from e [symmetric]
    have "interleave (front @ (lst @ '');'' @ h) # hs) (all_rows s) = s"
      unfolding rows .
    moreover have "length (front @ (lst @ '');'' @ h) # hs) = Suc (length (all_rows s))"
      using lf gaps(1) by (simp add: rows h)
    ultimately show ?thesis by blast
  next
    case None
    show ?thesis
    proof (cases s)
      case Nil
      have "all_rows s = []" using None by (subst all_rows_unfold) (simp add: Nil)
      then have "length [[]] = Suc (length (all_rows s)) \<and> interleave [[]] (all_rows s) = s"
        by (simp add: Nil)
      then show ?thesis by blast
    next
      case (Cons c cs)
      have rows: "all_rows s = all_rows cs" using None by (subst all_rows_unfold) (simp add: Cons)
      from 1(1) [OF None Cons] obtain gaps where
        gaps: "length gaps = Suc (length (all_rows cs))" "interleave gaps (all_rows cs) = cs"
        by auto
      then obtain h hs where h: "gaps = h # hs" by (cases gaps) auto
      have "interleave ((c # h) # hs) (all_rows cs) = c # cs"
        using gaps(2) interleave_prefix [of "[c]" h hs "all_rows cs"] by (simp add: h)
      then have "interleave ((c # h) # hs) (all_rows s) = c # cs"
        by (simp only: rows)
      then have "interleave ((c # h) # hs) (all_rows s) = s"
        by (simp only: Cons)
      moreover have "length ((c # h) # hs) = Suc (length (all_rows s))"
        using gaps(1) by (simp add: rows h)
      ultimately show ?thesis by blast
    qed
  qed
qed

text \<open>
  C10. The tuples that the parser visits are pieces of the text that follow one another
  in it, in the order of the visit; the records returned are the records of these tuples
  in that order (a tuple without a record is left out). Whatever files can be opened,
  every consolidated document that \<open>save_to_json\<close> writes holds the records in that order,
  every group file it writes holds the records of its key in that order, and every CSV
  file that \<open>save_to_csv\<close> writes holds one row per record in that order; the consolidated
  document is written when its file can be opened, and so is the CSV file when there is a
  record.
\<close>

theorem order_preserved:
  assumes "parse_sql_insert_values s = Inr records"
  shows "(\<exists>gaps. length gaps = Suc (length (all_rows s)) \<and> interleave gaps (all_rows s) = s) \<and>
         records = List.map_filter row_record (all_rows s) \<and>
         (\<exists>e new. save_to_json can_open records json_file tr = (e, tr @ new) \<and>
            (\<forall>c\<in>set (consolidated_files new). data c = records) \<and>
            (\<forall>f\<in>set (group_files new).
               \<exists>k. periodos (snd f) = filter (\<lambda>r. coop_key_of r = Inr k) records) \<and>
            (can_open json_file \<longrightarrow> map data (consolidated_files new) = [records])) \<and>
         (\<exists>e new. save_to_csv can_open records csv_file tr = (e, tr @ new) \<and>
            (\<forall>c\<in>set (csv_files new). csv_rows c = map csv_row records) \<and>
            (records \<noteq> [] \<and> can_open csv_file \<longrightarrow>
               map csv_rows (csv_files new) = [map csv_row records]))"
proof -
  have cols: "\<forall>r\<in>set records. map fst r = COLUMNS"
    using parsed_record_keys [OF assms] by blast
  then have keys: "\<forall>r\<in>set records. \<exists>k. coop_key_of r = Inr k"
    using coop_key_parsed by blast
  have p1: "\<exists>gaps. length gaps = Suc (length (all_rows s)) \<and> interleave gaps (all_rows s) = s"
    by (rule all_rows_interleave)
  have p2: "records = List.map_filter row_record (all_rows s)"
    using rows_loop_Inr [of "all_rows s" "[]" records] assms by (simp add: parse_rows_loop)
  from group_loop_keys [OF keys] obtain groups where
    gl: "group_loop records [] = Inr groups" and gr: "grouped groups records"
    and a: "\<forall>g\<in>set groups. \<forall>r\<in>set (snd g). \<exists>k. coop_key_of r = Inr k"
    and b: "\<forall>g\<in>set groups. snd g \<noteq> []"
    by blast
  let ?doc = "(json_file, Consolidated (length records) (length groups) ''grc-web.sql'' ''2025-10-23'' records)"
  from save_to_json_prefix [OF gl a b, of can_open json_file tr] obtain e new where
    j: "save_to_json can_open records json_file tr = (e, tr @ new)"
    and w: "written new = [] \<or>
      (\<exists>n. written new = ?doc # map (group_document json_file) (take n groups))"
    by blast
  have shape: "consolidated_files new = [] \<and> group_files new = [] \<or>
      (\<exists>n. consolidated_files new = [snd ?doc] \<and>
           group_files new = map (group_document json_file) (take n groups))"
    using w
  proof
    assume "written new = []"
    then show ?thesis by (simp add: consolidated_files_def group_files_def)
  next
    assume "\<exists>n. written new = ?doc # map (group_document json_file) (take n groups)"
    then obtain n where n: "written new = ?doc # map (group_document json_file) (take n groups)" ..
    have "consolidated_files new = [snd ?doc]"
      by (simp add: consolidated_files_def n consolidated_documents del: map_map)
    moreover have "group_files new = map (group_document json_file) (take n groups)"
      by (simp add: group_files_def n group_files_documents)
    ultimately show ?thesis by blast
  qed
  have d: "\<forall>c\<in>set (consolidated_files new). data c = records"
    using shape by auto
  have g: "\<forall>f\<in>set (group_files new).
      \<exists>k. periodos (snd f) = filter (\<lambda>r. coop_key_of r = Inr k) records"
  proof
    fix f assume f: "f \<in> set (group_files new)"
    with shape obtain n where "f \<in> set (map (group_document json_file) (take n groups))"
      by auto
    then obtain grp where grp: "grp \<in> set (take n groups)" "f = group_document json_file grp"
      by auto
    from grp(1) have "grp \<in> set groups" by (rule in_set_takeD)
    then have "(fst grp, snd grp) \<in> set groups" by simp
    from grouped_entry [OF gr this]
    have "snd grp = filter (\<lambda>r. coop_key_of r = Inr (fst grp)) records" by blast
    then have "periodos (snd f) = filter (\<lambda>r. coop_key_of r = Inr (fst grp)) records"
      by (simp add: grp(2) group_document_def)
    then show "\<exists>k. periodos (snd f) = filter (\<lambda>r. coop_key_of r = Inr k) records" ..
  qed
  have o: "can_open json_file \<longrightarrow> map data (consolidated_files new) = [records]"
  proof
    assume op: "can_open json_file"
    have "written new \<noteq> []"
    proof
      assume "written new = []"
      with j have "written (snd (save_to_json can_open records json_file tr)) = written tr"
        by (simp add: written_append)
      moreover have "written (snd (save_to_json can_open records json_file tr)) \<noteq> written tr"
      proof -
        let ?ev = "[WriteFile json_file (snd ?doc), Print (JsonSaved json_file)]"
        from cooperativa_loop_prefix [OF a b, of can_open json_file "tr @ ?ev"] obtain e' new' n where
          "cooperativa_loop can_open groups json_file (tr @ ?ev) = (e', (tr @ ?ev) @ new')" by blast
        then have "snd (save_to_json can_open records json_file tr) = (tr @ ?ev) @ new'"
          by (simp add: save_to_json_def gl op)
        then show ?thesis by (simp add: written_append)
      qed
      ultimately show False by simp
    qed
    with w obtain n where
      n: "written new = ?doc # map (group_document json_file) (take n groups)"
      by blast
    have "consolidated_files new = [snd ?doc]"
      by (simp add: consolidated_files_def n consolidated_documents del: map_map)
    then show "map data (consolidated_files new) = [records]"
      by simp
  qed
  have p3: "\<exists>e new. save_to_json can_open records json_file tr = (e, tr @ new) \<and>
            (\<forall>c\<in>set (consolidated_files new). data c = records) \<and>
            (\<forall>f\<in>set (group_files new).
               \<exists>k. periodos (snd f) = filter (\<lambda>r. coop_key_of r = Inr k) records) \<and>
            (can_open json_file \<longrightarrow> map data (consolidated_files new) = [records])"
    by (rule exI [of _ e], rule exI [of _ new]) (intro conjI j d g o)
  have p4: "\<exists>e new. save_to_csv can_open records csv_file tr = (e, tr @ new) \<and>
            (\<forall>c\<in>set (csv_files new). csv_rows c = map csv_row records) \<and>
            (records \<noteq> [] \<and> can_open csv_file \<longrightarrow>
               map csv_rows (csv_files new) = [map csv_row records])"
  proof (cases "records \<noteq> [] \<and> can_open csv_file")
    case True
    then have ne: "records \<noteq> []" and op: "can_open csv_file" by simp_all
    let ?new = "[WriteFile csv_file (Csv COLUMNS (map csv_row records)), Print (CsvSaved csv_file)]"
    have c: "save_to_csv can_open records csv_file tr = (None, tr @ ?new)"
      by (rule save_to_csv_parsed [where can_open = can_open and p = csv_file, OF cols ne op])
    have r: "\<forall>c\<in>set (csv_files ?new). csv_rows c = map csv_row records"
      by (simp add: csv_files_def)
    have r': "records \<noteq> [] \<and> can_open csv_file \<longrightarrow>
        map csv_rows (csv_files ?new) = [map csv_row records]"
      by (simp add: csv_files_def)
    show ?thesis
      by (rule exI [of _ None], rule exI [of _ ?new]) (intro conjI c r r')
  next
    case False
    have "\<exists>e new. save_to_csv can_open records csv_file tr = (e, tr @ new) \<and> csv_files new = []"
    proof (cases "records = []")
      case True
      then have "save_to_csv can_open records csv_file tr = (None, tr @ [Print NothingToSave]) \<and>
          csv_files [Print NothingToSave] = []"
        by (simp add: save_to_csv_def csv_files_def)
      then show ?thesis by blast
    next
      case ne: False
      with False have "\<not> can_open csv_file" by simp
      from save_to_csv_closed [where can_open = can_open and p = csv_file, OF ne this]
      have "save_to_csv can_open records csv_file tr = (Some OSError, tr @ []) \<and> csv_files [] = []"
        by (simp add: csv_files_def)
      then show ?thesis by blast
    qed
    then obtain e new where c: "save_to_csv can_open records csv_file tr = (e, tr @ new)"
      and n: "csv_files new = []" by blast
    have r: "\<forall>c\<in>set (csv_files new). csv_rows c = map csv_row records"
      by (simp add: n)
    have r': "records \<noteq> [] \<and> can_open csv_file \<longrightarrow>
        map csv_rows (csv_files new) = [map csv_row records]"
      using False by blast
    show ?thesis
      by (rule exI [of _ e], rule exI [of _ new]) (intro conjI c r r')
  qed
  from p1 p2 p3 p4 show ?thesis by (intro conjI)
qed

theorem order_preserved_witness:
  "parse_sql_insert_values sample_sql = Inr [record_a, record_b, record_a] \<and>
   all_rows sample_sql = [row_a, ''1,2'', row_b, row_a] \<and>
   List.map_filter row_record (all_rows sample_sql) = [record_a, record_b, record_a] \<and>
   map data (consolidated_files
     (snd (save_to_json all_paths [record_a, record_b, record_a] json_path []))) =
     [[record_a, record_b, record_a]] \<and>
   map (periodos \<circ> snd) (group_files
     (snd (save_to_json all_paths [record_a, record_b, record_a] json_path []))) =
     [[record_a, record_a], [record_b]] \<and>
   map csv_rows (csv_files
     (snd (save_to_csv all_paths [record_a, record_b, record_a] csv_path []))) =
     [[csv_row record_a, csv_row record_b, csv_row record_a]]"
proof -
  note t = order_preserved [OF parse_sample, of all_paths json_path "[]" csv_path]
  from t [THEN conjunct2, THEN conjunct1, symmetric]
  have c3: "List.map_filter row_record (all_rows sample_sql) = [record_a, record_b, record_a]" .
  have c4: "map data (consolidated_files
     (snd (save_to_json all_paths [record_a, record_b, record_a] json_path []))) =
     [[record_a, record_b, record_a]]"
    by (simp add: sample_save_to_json [of _ "[]", simplified] consolidated_files_def)
  have c5: "map (periodos \<circ> snd) (group_files
     (snd (save_to_json all_paths [record_a, record_b, record_a] json_path []))) =
     [[record_a, record_a], [record_b]]"
    by (simp add: sample_save_to_json [of _ "[]", simplified] group_files_def)
  have c6: "map csv_rows (csv_files
     (snd (save_to_csv all_paths [record_a, record_b, record_a] csv_path []))) =
     [[csv_row record_a, csv_row record_b, csv_row record_a]]"
    by (simp add: sample_save_to_csv [of _ "[]", simplified] csv_files_def)
  show ?thesis
    by (intro conjI parse_sample all_rows_sample c3 c4 c5 c6)
qed

end
